theory Spec2Isabelle
  imports Main "HOL-Library.Multiset"
begin

section \<open>The exclusive owner: \<open>unique_ptr\<close>\<close>

text \<open>
  The header \<open>mstd_memory\<close> backports \<open>std::unique_ptr\<close>, \<open>std::make_unique\<close> and the
  C++17 uninitialized-memory algorithms. The class templates \<open>unique_ptr<T, D>\<close> and
  \<open>unique_ptr<T[], D>\<close> have textually identical bodies for the destructor, \<open>release\<close>,
  \<open>reset\<close>, \<open>swap\<close>, the move constructor and the move assignment, so one embedding
  serves both the single-object and the array owner.

  An address is a natural number and the null pointer is \<open>0\<close>. An owner is its base
  class \<open>impl::deleter_store<D>\<close> (the stored deleter) and its member \<open>ptr_\<close> (written \<open>ptr\<close> here).
\<close>

type_synonym pointer = nat

definition nullptr :: pointer where
  "nullptr = 0"

record 'd unique_ptr =
  deleter :: 'd
  ptr :: pointer

text \<open>One call \<open>get_deleter()(p)\<close>: which deleter value was invoked, on which address.\<close>

datatype 'd invocation = Invoke 'd pointer

fun address :: "'d invocation \<Rightarrow> pointer" where
  "address (Invoke d p) = p"

text \<open>
  The deleter type \<open>D\<close> is a template parameter; its move constructor and move
  assignment are \<open>D\<close>'s own code. A move hands the source's value to the destination;
  what it leaves behind in the source is a parameter of the model, and so is what
  \<open>d = std::move(d)\<close> leaves in \<open>d\<close>.
\<close>

record 'd deleter_type =
  moved_from :: "'d \<Rightarrow> 'd"
  self_moved :: "'d \<Rightarrow> 'd"

text \<open>
  The two deleters the header defines, \<open>default_delete<T>\<close> (\<open>delete ptr\<close>) and
  \<open>default_delete<T[]>\<close> (\<open>delete[] ptr\<close>), are empty structs: moving one changes
  nothing.
\<close>

datatype default_delete = Delete_object | Delete_array

definition default_delete_type :: "default_delete deleter_type" where
  "default_delete_type = \<lparr>moved_from = (\<lambda>d. d), self_moved = (\<lambda>d. d)\<rparr>"

subsection \<open>Member functions of one owner\<close>

text \<open>\<open>pointer get() const\<close> and \<open>explicit operator bool() const\<close>.\<close>

definition get :: "'d unique_ptr \<Rightarrow> pointer" where
  "get u = ptr u"

definition operator_bool :: "'d unique_ptr \<Rightarrow> bool" where
  "operator_bool u = (ptr u \<noteq> nullptr)"

text \<open>\<open>release\<close>: \<open>return std::exchange(ptr_, nullptr);\<close>\<close>

definition release :: "'d unique_ptr \<Rightarrow> pointer \<times> 'd unique_ptr" where
  "release u = (ptr u, u\<lparr>ptr := nullptr\<rparr>)"

text \<open>
  \<open>reset(ptr)\<close>: \<open>pointer old = std::exchange(ptr_, ptr); if (old) get_deleter()(old);\<close>
  The result is the owner afterwards and the deleter calls made, in order.
\<close>

definition reset :: "'d unique_ptr \<Rightarrow> pointer \<Rightarrow> 'd unique_ptr \<times> 'd invocation list" where
  "reset u p =
     (let old = ptr u;
          u' = u\<lparr>ptr := p\<rparr>
      in (u', if old \<noteq> nullptr then [Invoke (deleter u') old] else []))"

text \<open>\<open>~unique_ptr\<close>: \<open>if (ptr_) get_deleter()(ptr_);\<close>\<close>

definition destructor :: "'d unique_ptr \<Rightarrow> 'd invocation list" where
  "destructor u = (if ptr u \<noteq> nullptr then [Invoke (deleter u) (ptr u)] else [])"

text \<open>
  The move constructor \<open>unique_ptr(unique_ptr &&u)\<close>: the base is initialised from
  \<open>forward<D>(u.get_deleter())\<close>, the member from \<open>u.ptr_\<close>, and the body sets
  \<open>u.ptr_ = nullptr\<close>. The result is the new owner and the source afterwards.
\<close>

definition move_constructor ::
  "'d deleter_type \<Rightarrow> 'd unique_ptr \<Rightarrow> 'd unique_ptr \<times> 'd unique_ptr" where
  "move_constructor D u =
     (\<lparr>deleter = deleter u, ptr = ptr u\<rparr>,
      u\<lparr>deleter := moved_from D (deleter u), ptr := nullptr\<rparr>)"

subsection \<open>The owners of a program\<close>

text \<open>
  Move assignment and \<open>swap\<close> take a second owner by reference, which may be the very
  object they are called on. The owners of a program are therefore kept in a store: an
  owner object is identified by its index, \<open>None\<close> marks an object whose lifetime has
  ended, and \<open>calls\<close> records every deleter invocation so far, oldest first. Using an
  object outside its lifetime is undefined in C++: the operation yields \<open>None\<close>.
\<close>

record 'd store =
  owners :: "'d unique_ptr option list"
  calls :: "'d invocation list"

definition owner_at :: "'d store \<Rightarrow> nat \<Rightarrow> 'd unique_ptr option" where
  "owner_at s i = (if i < length (owners s) then owners s ! i else None)"

definition put :: "'d store \<Rightarrow> nat \<Rightarrow> 'd unique_ptr \<Rightarrow> 'd store" where
  "put s i u = s\<lparr>owners := (owners s)[i := Some u]\<rparr>"

definition do_release :: "'d store \<Rightarrow> nat \<Rightarrow> (pointer \<times> 'd store) option" where
  "do_release s i =
     (case owner_at s i of
        None \<Rightarrow> None
      | Some u \<Rightarrow> (case release u of (p, u') \<Rightarrow> Some (p, put s i u')))"

definition do_reset :: "'d store \<Rightarrow> nat \<Rightarrow> pointer \<Rightarrow> 'd store option" where
  "do_reset s i p =
     (case owner_at s i of
        None \<Rightarrow> None
      | Some u \<Rightarrow> (case reset u p of (u', cs) \<Rightarrow> Some ((put s i u')\<lparr>calls := calls s @ cs\<rparr>)))"

text \<open>The end of an owner's lifetime: the destructor runs and the object is gone.\<close>

definition do_destroy :: "'d store \<Rightarrow> nat \<Rightarrow> 'd store option" where
  "do_destroy s i =
     (case owner_at s i of
        None \<Rightarrow> None
      | Some u \<Rightarrow> Some (s\<lparr>owners := (owners s)[i := None], calls := calls s @ destructor u\<rparr>))"

text \<open>
  A new owner object is move-constructed from owner \<open>r\<close>; the result carries the new
  object's index.
\<close>

definition do_move_construct :: "'d deleter_type \<Rightarrow> 'd store \<Rightarrow> nat \<Rightarrow> (nat \<times> 'd store) option" where
  "do_move_construct D s r =
     (case owner_at s r of
        None \<Rightarrow> None
      | Some u \<Rightarrow>
          (case move_constructor D u of
             (new, u') \<Rightarrow>
               Some (length (owners s), (put s r u')\<lparr>owners := owners (put s r u') @ [Some new]\<rparr>)))"

text \<open>
  The assignment \<open>this->get_deleter() = std::forward<D>(r.get_deleter())\<close> that ends the
  move assignment. When \<open>this\<close> and \<open>r\<close> are one object it is a self-move of the deleter.
\<close>

definition assign_deleter :: "'d deleter_type \<Rightarrow> 'd store \<Rightarrow> nat \<Rightarrow> nat \<Rightarrow> 'd store option" where
  "assign_deleter D s this r =
     (case (owner_at s this, owner_at s r) of
        (Some t, Some u) \<Rightarrow>
          if this = r then Some (put s this (t\<lparr>deleter := self_moved D (deleter t)\<rparr>))
          else Some (put (put s this (t\<lparr>deleter := deleter u\<rparr>)) r
                       (u\<lparr>deleter := moved_from D (deleter u)\<rparr>))
      | _ \<Rightarrow> None)"

text \<open>
  \<open>operator=(unique_ptr &&r)\<close>: \<open>reset(r.release());
  this->get_deleter() = std::forward<D>(r.get_deleter()); return *this;\<close>
\<close>

definition do_move_assign :: "'d deleter_type \<Rightarrow> 'd store \<Rightarrow> nat \<Rightarrow> nat \<Rightarrow> 'd store option" where
  "do_move_assign D s this r =
     (case do_release s r of
        None \<Rightarrow> None
      | Some (p, s1) \<Rightarrow>
          (case do_reset s1 this p of
             None \<Rightarrow> None
           | Some s2 \<Rightarrow> assign_deleter D s2 this r))"

text \<open>
  \<open>swap(other)\<close>: \<open>swap(this->get_deleter(), other.get_deleter()); swap(ptr_, other.ptr_);\<close>
  Both members are exchanged; on one and the same object nothing changes.
\<close>

definition do_swap :: "'d store \<Rightarrow> nat \<Rightarrow> nat \<Rightarrow> 'd store option" where
  "do_swap s this other =
     (case (owner_at s this, owner_at s other) of
        (Some t, Some u) \<Rightarrow> Some (put (put s this u) other t)
      | _ \<Rightarrow> None)"

text \<open>\<open>unique_ptr(pointer ptr, const D &d)\<close>: a new owner object holding \<open>ptr\<close>.\<close>

definition do_construct :: "'d store \<Rightarrow> pointer \<Rightarrow> 'd \<Rightarrow> nat \<times> 'd store" where
  "do_construct s p d =
     (length (owners s), s\<lparr>owners := owners s @ [Some \<lparr>deleter = d, ptr = p\<rparr>]\<rparr>)"

subsection \<open>Programs over owners\<close>

text \<open>
  A program is a sequence of operations on the owners of a store; an operation on an
  object outside its lifetime ends the run with \<open>None\<close>.
\<close>

datatype 'd operation =
    Construct pointer 'd
  | Move_construct nat
  | Move_assign nat nat
  | Release nat
  | Reset nat pointer
  | Swap nat nat
  | Destroy nat

fun exec :: "'d deleter_type \<Rightarrow> 'd store \<Rightarrow> 'd operation \<Rightarrow> 'd store option" where
  "exec D s (Construct p d) = Some (snd (do_construct s p d))"
| "exec D s (Move_construct r) = map_option snd (do_move_construct D s r)"
| "exec D s (Move_assign this r) = do_move_assign D s this r"
| "exec D s (Release i) = map_option snd (do_release s i)"
| "exec D s (Reset i p) = do_reset s i p"
| "exec D s (Swap i j) = do_swap s i j"
| "exec D s (Destroy i) = do_destroy s i"

fun run :: "'d deleter_type \<Rightarrow> 'd store \<Rightarrow> 'd operation list \<Rightarrow> 'd store option" where
  "run D s [] = Some s"
| "run D s (x # xs) = (case exec D s x of None \<Rightarrow> None | Some s' \<Rightarrow> run D s' xs)"

text \<open>
  The non-null addresses held by the live owners, the addresses the deleter has been
  called on, and the invariant of exclusive ownership: no address is held twice, deleted
  twice, or held after it was deleted.
\<close>

definition owned :: "'d unique_ptr option \<Rightarrow> pointer list" where
  "owned x = (case x of None \<Rightarrow> [] | Some u \<Rightarrow> if ptr u = nullptr then [] else [ptr u])"

definition held :: "'d store \<Rightarrow> pointer list" where
  "held s = concat (map owned (owners s))"

definition deleted :: "'d store \<Rightarrow> pointer list" where
  "deleted s = map address (calls s)"

definition exclusive :: "'d store \<Rightarrow> bool" where
  "exclusive s = distinct (held s @ deleted s)"

text \<open>
  Every address that is held or has been deleted, with its multiplicity: a transfer
  moves an address between owners and a deleter call moves it from held to deleted.
\<close>

definition accounted :: "'d store \<Rightarrow> pointer multiset" where
  "accounted s = mset (held s) + mset (deleted s)"

text \<open>
  The owner cannot check what it is given. The caller's part of the discipline is that
  an address handed to an owner, by construction or by \<open>reset\<close>, is null or is neither
  held by a live owner nor already deleted.
\<close>

fun handed_over :: "'d operation \<Rightarrow> pointer option" where
  "handed_over (Construct p d) = Some p"
| "handed_over (Reset i p) = Some p"
| "handed_over (Move_construct r) = None"
| "handed_over (Move_assign this r) = None"
| "handed_over (Release i) = None"
| "handed_over (Swap i j) = None"
| "handed_over (Destroy i) = None"

definition admissible :: "'d store \<Rightarrow> 'd operation \<Rightarrow> bool" where
  "admissible s x =
     (case handed_over x of
        None \<Rightarrow> True
      | Some p \<Rightarrow> p = nullptr \<or> p \<notin> set (held s @ deleted s))"

fun disciplined :: "'d deleter_type \<Rightarrow> 'd store \<Rightarrow> 'd operation list \<Rightarrow> bool" where
  "disciplined D s [] = True"
| "disciplined D s (x # xs) =
     (admissible s x \<and> (case exec D s x of None \<Rightarrow> True | Some s' \<Rightarrow> disciplined D s' xs))"

subsection \<open>Comparison of two owners\<close>

text \<open>
  The operators take owners of two possibly different instances \<open>unique_ptr<T1, D1>\<close> and
  \<open>unique_ptr<T2, D2>\<close>. \<open>operator<\<close> applies \<open>std::less<CT>\<close> to the two addresses, \<open>CT\<close>
  being the common type of the two pointer types: the order of the addresses.
\<close>

definition less_CT :: "pointer \<Rightarrow> pointer \<Rightarrow> bool" where
  "less_CT p q = (p < q)"

definition operator_eq :: "'d unique_ptr \<Rightarrow> 'e unique_ptr \<Rightarrow> bool" where
  "operator_eq x y = (get x = get y)"

definition operator_ne :: "'d unique_ptr \<Rightarrow> 'e unique_ptr \<Rightarrow> bool" where
  "operator_ne x y = (get x \<noteq> get y)"

definition operator_lt :: "'d unique_ptr \<Rightarrow> 'e unique_ptr \<Rightarrow> bool" where
  "operator_lt x y = less_CT (get x) (get y)"

definition operator_le :: "'d unique_ptr \<Rightarrow> 'e unique_ptr \<Rightarrow> bool" where
  "operator_le x y = (\<not> operator_lt y x)"

definition operator_gt :: "'d unique_ptr \<Rightarrow> 'e unique_ptr \<Rightarrow> bool" where
  "operator_gt x y = operator_lt y x"

definition operator_ge :: "'d unique_ptr \<Rightarrow> 'e unique_ptr \<Rightarrow> bool" where
  "operator_ge x y = (\<not> operator_lt x y)"

section \<open>Raw storage and the uninitialized-memory algorithms\<close>

text \<open>
  An iterator is a position in storage. A slot either holds no object (\<open>Raw\<close>) or a live
  value. Every construction and every destructor call is recorded, oldest first.

  The element type \<open>T\<close> is a template parameter. What a default-initialised and a
  value-initialised \<open>T\<close> hold, and what \<open>T\<close>'s move constructor leaves in its source, are
  parameters; the object being move-constructed takes the source's value.
\<close>

datatype 'a cell = Raw | Live 'a

datatype lifetime_event = Constructed nat | Destroyed nat

record 'a storage =
  cells :: "nat \<Rightarrow> 'a cell"
  events :: "lifetime_event list"

record 'a value_type =
  default_init :: 'a
  value_init :: 'a
  moved_out :: "'a \<Rightarrow> 'a"

text \<open>
  \<open>::new (static_cast<void*>(addressof(*result))) value_type(move(*first))\<close>: the slot
  at \<open>result\<close> is constructed from the value at \<open>first\<close>. Moving from a slot that holds no
  object is undefined: \<open>None\<close>.
\<close>

definition construct_moved :: "'a value_type \<Rightarrow> 'a storage \<Rightarrow> nat \<Rightarrow> nat \<Rightarrow> 'a storage option" where
  "construct_moved T st result first =
     (case cells st first of
        Raw \<Rightarrow> None
      | Live v \<Rightarrow>
          Some (st\<lparr>cells := (cells st)(first := Live (moved_out T v), result := Live v),
                  events := events st @ [Constructed result]\<rparr>))"

text \<open>
  \<open>uninitialized_move(first, last, result)\<close>:
  \<open>for (; first != last; ++result, (void) ++first) { construct } return result;\<close>
  The loop runs until \<open>first\<close> meets \<open>last\<close>, which it never does when \<open>last\<close> is before
  \<open>first\<close>; not returning is the value \<open>None\<close>. (\<open>last\<close> is written \<open>last'\<close>.)
\<close>

partial_function (option) uninitialized_move ::
  "'a value_type \<Rightarrow> 'a storage \<Rightarrow> nat \<Rightarrow> nat \<Rightarrow> nat \<Rightarrow> (nat \<times> 'a storage) option" where
  "uninitialized_move T st first last' result =
     (if first \<noteq> last'
      then Option.bind (construct_moved T st result first)
             (\<lambda>st'. uninitialized_move T st' (first + 1) last' (result + 1))
      else Some (result, st))"

text \<open>
  \<open>uninitialized_move_n(first, n, result)\<close>:
  \<open>for ( ; n > 0; ++result, (void) ++first, --n) { construct } return { first, result };\<close>
  \<open>Size\<close> may be a signed type, so \<open>n\<close> is an integer.
\<close>

function uninitialized_move_n ::
  "'a value_type \<Rightarrow> 'a storage \<Rightarrow> nat \<Rightarrow> int \<Rightarrow> nat \<Rightarrow> ((nat \<times> nat) \<times> 'a storage) option" where
  "uninitialized_move_n T st first n result =
     (if n > 0
      then (case construct_moved T st result first of
              None \<Rightarrow> None
            | Some st' \<Rightarrow> uninitialized_move_n T st' (first + 1) (n - 1) (result + 1))
      else Some ((first, result), st))"
  by pat_completeness auto
termination
  by (relation "measure (\<lambda>(T, st, first, n, result). nat n)") auto

declare uninitialized_move_n.simps [simp del]

text \<open>\<open>destroy_at(location)\<close>: \<open>location->~T();\<close>\<close>

definition destroy_at :: "'a storage \<Rightarrow> nat \<Rightarrow> 'a storage" where
  "destroy_at st location =
     st\<lparr>cells := (cells st)(location := Raw), events := events st @ [Destroyed location]\<rparr>"

text \<open>
  \<open>destroy(first, last)\<close>:
  \<open>for (; first != last; ++first) destroy_at(addressof(*first));\<close>
\<close>

partial_function (option) destroy :: "'a storage \<Rightarrow> nat \<Rightarrow> nat \<Rightarrow> 'a storage option" where
  "destroy st first last' =
     (if first \<noteq> last' then destroy (destroy_at st first) (first + 1) last' else Some st)"

text \<open>
  \<open>destroy_n(first, n)\<close>:
  \<open>for (; n > 0; (void)++first, --n) destroy_at(addressof(*first)); return first;\<close>
\<close>

function destroy_n :: "'a storage \<Rightarrow> nat \<Rightarrow> int \<Rightarrow> nat \<times> 'a storage" where
  "destroy_n st first n =
     (if n > 0 then destroy_n (destroy_at st first) (first + 1) (n - 1) else (first, st))"
  by pat_completeness auto
termination
  by (relation "measure (\<lambda>(st, first, n). nat n)") auto

declare destroy_n.simps [simp del]

section \<open>\<open>make_unique\<close> for arrays\<close>

text \<open>
  The second overload of \<open>make_unique\<close> is
  \<open>enable_if_t<is_array<T>::value && extent<T>::value == 0, unique_ptr<T>>
  make_unique(size_t size) { return unique_ptr<T>(new remove_extent_t<T>[size]()); }\<close>

  The shape of the template argument decides which overload takes part: \<open>U\<close>, \<open>U[]\<close> or
  \<open>U[N]\<close>. \<open>std::extent\<close> is \<open>0\<close> for a type that is not an array and for \<open>U[]\<close>.
\<close>

datatype type_shape = Non_array | Unbounded_array | Bounded_array nat

fun is_array :: "type_shape \<Rightarrow> bool" where
  "is_array Non_array = False"
| "is_array Unbounded_array = True"
| "is_array (Bounded_array N) = True"

fun extent :: "type_shape \<Rightarrow> nat" where
  "extent Non_array = 0"
| "extent Unbounded_array = 0"
| "extent (Bounded_array N) = N"

definition make_unique_object_enabled :: "type_shape \<Rightarrow> bool" where
  "make_unique_object_enabled T = (\<not> is_array T)"

definition make_unique_array_enabled :: "type_shape \<Rightarrow> bool" where
  "make_unique_array_enabled T = (is_array T \<and> extent T = 0)"

definition make_unique_deleted :: "type_shape \<Rightarrow> bool" where
  "make_unique_deleted T = (extent T \<noteq> 0)"

text \<open>
  The free store maps the address of an allocated array to its elements. The allocation
  function \<open>operator new[]\<close> belongs to the host: it is a parameter that yields the
  address of the new block, or \<open>None\<close> when the allocation fails and the failure
  propagates to the caller.

  The new-expression \<open>new U[size]()\<close> has the initializer \<open>()\<close>: each element is
  value-initialised. (Without it, \<open>new U[size]\<close>, each element would be
  default-initialised; the header's \<open>uninitialized_default_construct\<close> and
  \<open>uninitialized_value_construct\<close> differ in the same way, \<open>value_type\<close> against
  \<open>value_type()\<close>.)
\<close>

record 'a free_store =
  arrays :: "pointer \<Rightarrow> 'a list option"

definition new_array_value_initialized ::
  "'a value_type \<Rightarrow> ('a free_store \<Rightarrow> nat \<Rightarrow> pointer option) \<Rightarrow> 'a free_store \<Rightarrow> nat
     \<Rightarrow> (pointer \<times> 'a free_store) option" where
  "new_array_value_initialized T operator_new h size' =
     (case operator_new h size' of
        None \<Rightarrow> None
      | Some p \<Rightarrow> Some (p, h\<lparr>arrays := (arrays h)(p \<mapsto> replicate size' (value_init T))\<rparr>))"

text \<open>
  The owner is built by \<open>explicit unique_ptr(U ptr)\<close>, whose deleter is a
  default-constructed \<open>default_delete<T[]>\<close>.
\<close>

definition make_unique_array ::
  "'a value_type \<Rightarrow> ('a free_store \<Rightarrow> nat \<Rightarrow> pointer option) \<Rightarrow> 'a free_store \<Rightarrow> nat
     \<Rightarrow> (default_delete unique_ptr \<times> 'a free_store) option" where
  "make_unique_array T operator_new h size' =
     (case new_array_value_initialized T operator_new h size' of
        None \<Rightarrow> None
      | Some (p, h') \<Rightarrow> Some (\<lparr>deleter = Delete_array, ptr = p\<rparr>, h'))"

text \<open>
  An \<open>int\<close> object: default-initialisation leaves its value indeterminate,
  value-initialisation makes it zero, and moving from it leaves it as it was.
\<close>

datatype int_object = Indeterminate | Int_value int

definition int_type :: "int_object value_type" where
  "int_type = \<lparr>default_init = Indeterminate, value_init = Int_value 0, moved_out = (\<lambda>v. v)\<rparr>"

section \<open>Properties of \<open>release\<close> and \<open>reset\<close>\<close>

lemma owner_at_put_same:
  "i < length (owners s) \<Longrightarrow> owner_at (put s i u) i = Some u"
  by (simp add: owner_at_def put_def)

lemma owner_at_put_other:
  "i \<noteq> j \<Longrightarrow> owner_at (put s i u) j = owner_at s j"
  by (simp add: owner_at_def put_def)

lemma owner_at_Some_length:
  "owner_at s i = Some u \<Longrightarrow> i < length (owners s)"
  by (simp add: owner_at_def split: if_splits)

lemma calls_put: "calls (put s i u) = calls s"
  by (simp add: put_def)

lemma length_owners_put: "length (owners (put s i u)) = length (owners s)"
  by (simp add: put_def)

text \<open>
  C1. For a live owner \<open>o\<close> holding the owner value \<open>u\<close>, \<open>x = o.release()\<close> returns the
  address \<open>u\<close> held, leaves \<open>o\<close> holding the null pointer, leaves every other owner as it
  was, and makes no deleter call; destroying \<open>o\<close> afterwards makes no deleter call
  either.
\<close>

theorem release_returns_address_and_empties:
  assumes "owner_at s i = Some u"
  shows "\<exists>s'. do_release s i = Some (ptr u, s')
           \<and> owner_at s' i = Some (u\<lparr>ptr := nullptr\<rparr>)
           \<and> \<not> operator_bool (u\<lparr>ptr := nullptr\<rparr>)
           \<and> (\<forall>j. j \<noteq> i \<longrightarrow> owner_at s' j = owner_at s j)
           \<and> calls s' = calls s
           \<and> (\<exists>s''. do_destroy s' i = Some s'' \<and> calls s'' = calls s)"
proof -
  let ?s' = "put s i (u\<lparr>ptr := nullptr\<rparr>)"
  have len: "i < length (owners s)"
    using assms by (rule owner_at_Some_length)
  have rel: "do_release s i = Some (ptr u, ?s')"
    using assms by (simp add: do_release_def release_def)
  have at: "owner_at ?s' i = Some (u\<lparr>ptr := nullptr\<rparr>)"
    using len by (rule owner_at_put_same)
  have empty: "\<not> operator_bool (u\<lparr>ptr := nullptr\<rparr>)"
    by (simp add: operator_bool_def)
  have others: "\<forall>j. j \<noteq> i \<longrightarrow> owner_at ?s' j = owner_at s j"
    by (simp add: owner_at_put_other)
  have quiet: "calls ?s' = calls s"
    by (rule calls_put)
  have "do_destroy ?s' i
          = Some (?s'\<lparr>owners := (owners ?s')[i := None], calls := calls ?s' @ []\<rparr>)"
    using at by (simp add: do_destroy_def destructor_def)
  then have dead: "\<exists>s''. do_destroy ?s' i = Some s'' \<and> calls s'' = calls s"
    using quiet by simp
  from rel at empty others quiet dead show ?thesis
    by blast
qed

theorem release_returns_address_and_empties_witness:
  "\<exists>s'. do_release \<lparr>owners = [Some \<lparr>deleter = Delete_object, ptr = 7\<rparr>], calls = []\<rparr> 0
            = Some (7, s')
        \<and> owner_at s' 0 = Some \<lparr>deleter = Delete_object, ptr = nullptr\<rparr>
        \<and> calls s' = []
        \<and> (\<exists>s''. do_destroy s' 0 = Some s'' \<and> calls s'' = [])"
proof -
  have live: "owner_at \<lparr>owners = [Some \<lparr>deleter = Delete_object, ptr = 7\<rparr>], calls = []\<rparr> 0
                = Some \<lparr>deleter = Delete_object, ptr = 7\<rparr>"
    by (simp add: owner_at_def)
  from release_returns_address_and_empties [OF live] obtain s' where
    "do_release \<lparr>owners = [Some \<lparr>deleter = Delete_object, ptr = 7\<rparr>], calls = []\<rparr> 0
       = Some (7, s')"
    "owner_at s' 0 = Some \<lparr>deleter = Delete_object, ptr = nullptr\<rparr>"
    "calls s' = []"
    "\<exists>s''. do_destroy s' 0 = Some s'' \<and> calls s'' = []"
    by auto
  then show ?thesis
    by blast
qed

text \<open>
  C2 as stated fails: resetting an owner to the address it already holds installs that
  address and then calls the deleter on it.
\<close>

theorem reset_to_held_address_deletes_it:
  "do_reset \<lparr>owners = [Some \<lparr>deleter = Delete_object, ptr = 5\<rparr>], calls = []\<rparr> 0 5
     = Some \<lparr>owners = [Some \<lparr>deleter = Delete_object, ptr = 5\<rparr>],
             calls = [Invoke Delete_object 5]\<rparr>"
  by (simp add: do_reset_def owner_at_def reset_def put_def nullptr_def)

text \<open>
  C2, amended. For a live owner \<open>o\<close> holding the owner value \<open>u\<close> and every address \<open>a\<close>,
  \<open>o.reset(a)\<close> installs \<open>a\<close> and keeps the deleter; the deleter calls it makes are
  exactly one call on the previously held address when that address is not null, and
  none when it is null; so no call is made on \<open>a\<close> unless \<open>a\<close> is the previously held
  address.
\<close>

theorem reset_installs_and_deletes_previous:
  assumes "owner_at s i = Some u"
  shows "\<exists>s'. do_reset s i a = Some s'
           \<and> owner_at s' i = Some (u\<lparr>ptr := a\<rparr>)
           \<and> calls s' = calls s @ (if ptr u = nullptr then [] else [Invoke (deleter u) (ptr u)])
           \<and> (a \<noteq> ptr u \<longrightarrow> a \<notin> address ` set (drop (length (calls s)) (calls s')))"
proof -
  let ?cs = "if ptr u = nullptr then [] else [Invoke (deleter u) (ptr u)]"
  let ?s' = "(put s i (u\<lparr>ptr := a\<rparr>))\<lparr>calls := calls s @ ?cs\<rparr>"
  have len: "i < length (owners s)"
    using assms by (rule owner_at_Some_length)
  have run: "do_reset s i a = Some ?s'"
    using assms by (simp add: do_reset_def reset_def)
  have at: "owner_at ?s' i = Some (u\<lparr>ptr := a\<rparr>)"
    using len by (simp add: owner_at_def put_def)
  have cs: "calls ?s' = calls s @ ?cs"
    by simp
  have "a \<noteq> ptr u \<longrightarrow> a \<notin> address ` set (drop (length (calls s)) (calls ?s'))"
    by simp
  with run at cs show ?thesis
    by blast
qed

theorem reset_installs_and_deletes_previous_witness:
  "\<exists>s'. do_reset \<lparr>owners = [Some \<lparr>deleter = Delete_object, ptr = 5\<rparr>], calls = []\<rparr> 0 9 = Some s'
        \<and> owner_at s' 0 = Some \<lparr>deleter = Delete_object, ptr = 9\<rparr>
        \<and> calls s' = [Invoke Delete_object 5]
        \<and> 9 \<notin> address ` set (calls s')"
proof -
  have live: "owner_at \<lparr>owners = [Some \<lparr>deleter = Delete_object, ptr = 5\<rparr>], calls = []\<rparr> 0
                = Some \<lparr>deleter = Delete_object, ptr = 5\<rparr>"
    by (simp add: owner_at_def)
  from reset_installs_and_deletes_previous [OF live, of 9] obtain s' where
    "do_reset \<lparr>owners = [Some \<lparr>deleter = Delete_object, ptr = 5\<rparr>], calls = []\<rparr> 0 9 = Some s'"
    "owner_at s' 0 = Some \<lparr>deleter = Delete_object, ptr = 9\<rparr>"
    "calls s' = [Invoke Delete_object 5]"
    by (auto simp: nullptr_def)
  then show ?thesis
    by auto
qed

section \<open>Ownership transfer by move\<close>

lemma move_construct_transfers:
  assumes a: "owner_at s a = Some ua"
  shows "\<exists>b s' ua' ub'. do_move_construct D s a = Some (b, s')
             \<and> b \<noteq> a \<and> owner_at s b = None
             \<and> owner_at s' a = Some ua' \<and> owner_at s' b = Some ub'
             \<and> ptr ua' = nullptr \<and> deleter ua' = moved_from D (deleter ua)
             \<and> ptr ub' = ptr ua \<and> deleter ub' = deleter ua
             \<and> calls s' = calls s"
proof -
  have len: "a < length (owners s)"
    using a by (rule owner_at_Some_length)
  show ?thesis
    using a len
    by (auto simp: do_move_construct_def move_constructor_def owner_at_def put_def nth_append)
qed

lemma move_assign_transfers:
  assumes a: "owner_at s a = Some ua" and b: "owner_at s b = Some ub" and ne: "b \<noteq> a"
  shows "\<exists>s' ua' ub'. do_move_assign D s b a = Some s'
             \<and> owner_at s' a = Some ua' \<and> owner_at s' b = Some ub'
             \<and> ptr ua' = nullptr \<and> deleter ua' = moved_from D (deleter ua)
             \<and> ptr ub' = ptr ua \<and> deleter ub' = deleter ua
             \<and> calls s' = calls s @ (if ptr ub = nullptr then [] else [Invoke (deleter ub) (ptr ub)])
             \<and> (ptr ua \<in> address ` set (drop (length (calls s)) (calls s'))
                  \<longleftrightarrow> ptr ub = ptr ua \<and> ptr ua \<noteq> nullptr)"
proof -
  have la: "a < length (owners s)"
    using a by (rule owner_at_Some_length)
  have lb: "b < length (owners s)"
    using b by (rule owner_at_Some_length)
  show ?thesis
    using a b ne la lb
    by (auto simp: do_move_assign_def do_release_def release_def do_reset_def reset_def
        assign_deleter_def owner_at_def put_def)
qed

text \<open>
  C3 as stated fails for move assignment: the destination is reset with no comparison
  of the incoming address and the one it holds. When both owners hold the address \<open>3\<close>,
  \<open>b = std::move(a)\<close> calls the deleter on \<open>3\<close>, the transferred address, which \<open>b\<close> then
  holds.
\<close>

theorem move_assign_between_owners_of_one_address_deletes_it:
  "do_move_assign default_delete_type
     \<lparr>owners = [Some \<lparr>deleter = Delete_object, ptr = 3\<rparr>,
                Some \<lparr>deleter = Delete_object, ptr = 3\<rparr>], calls = []\<rparr> 1 0
     = Some \<lparr>owners = [Some \<lparr>deleter = Delete_object, ptr = nullptr\<rparr>,
                       Some \<lparr>deleter = Delete_object, ptr = 3\<rparr>],
             calls = [Invoke Delete_object 3]\<rparr>"
  by (simp add: do_move_assign_def do_release_def release_def do_reset_def reset_def
      assign_deleter_def owner_at_def put_def nullptr_def default_delete_type_def)

text \<open>
  C3, amended. Let \<open>a\<close> be a live owner holding the owner value \<open>ua\<close>.

  Move construction of a new owner \<open>b\<close> from \<open>a\<close>: afterwards \<open>a\<close> holds the null pointer,
  \<open>b\<close> holds the address \<open>a\<close> held, \<open>b\<close>'s deleter is \<open>a\<close>'s former deleter while \<open>a\<close>'s
  deleter is what a move leaves behind (it was moved, not copied), and no deleter call
  is made.

  Move assignment \<open>b = std::move(a)\<close> to another live owner \<open>b\<close>: the same holds for \<open>a\<close>
  and \<open>b\<close>, and the only deleter call is the one on the address \<open>b\<close> held before, made
  with the deleter \<open>b\<close> had before. A call on the transferred address is therefore made
  exactly when \<open>b\<close> held that same non-null address before the assignment.
\<close>

theorem move_transfers_address_and_deleter:
  assumes "owner_at s a = Some ua"
  shows "(\<exists>b s' ua' ub'. do_move_construct D s a = Some (b, s')
             \<and> b \<noteq> a \<and> owner_at s b = None
             \<and> owner_at s' a = Some ua' \<and> owner_at s' b = Some ub'
             \<and> ptr ua' = nullptr \<and> deleter ua' = moved_from D (deleter ua)
             \<and> ptr ub' = ptr ua \<and> deleter ub' = deleter ua
             \<and> calls s' = calls s)
       \<and> (\<forall>b ub. owner_at s b = Some ub \<and> b \<noteq> a \<longrightarrow>
            (\<exists>s' ua' ub'. do_move_assign D s b a = Some s'
               \<and> owner_at s' a = Some ua' \<and> owner_at s' b = Some ub'
               \<and> ptr ua' = nullptr \<and> deleter ua' = moved_from D (deleter ua)
               \<and> ptr ub' = ptr ua \<and> deleter ub' = deleter ua
               \<and> calls s' = calls s @ (if ptr ub = nullptr then [] else [Invoke (deleter ub) (ptr ub)])
               \<and> (ptr ua \<in> address ` set (drop (length (calls s)) (calls s'))
                    \<longleftrightarrow> ptr ub = ptr ua \<and> ptr ua \<noteq> nullptr)))"
proof (rule conjI)
  show "\<exists>b s' ua' ub'. do_move_construct D s a = Some (b, s')
             \<and> b \<noteq> a \<and> owner_at s b = None
             \<and> owner_at s' a = Some ua' \<and> owner_at s' b = Some ub'
             \<and> ptr ua' = nullptr \<and> deleter ua' = moved_from D (deleter ua)
             \<and> ptr ub' = ptr ua \<and> deleter ub' = deleter ua
             \<and> calls s' = calls s"
    using assms by (rule move_construct_transfers)
next
  show "\<forall>b ub. owner_at s b = Some ub \<and> b \<noteq> a \<longrightarrow>
            (\<exists>s' ua' ub'. do_move_assign D s b a = Some s'
               \<and> owner_at s' a = Some ua' \<and> owner_at s' b = Some ub'
               \<and> ptr ua' = nullptr \<and> deleter ua' = moved_from D (deleter ua)
               \<and> ptr ub' = ptr ua \<and> deleter ub' = deleter ua
               \<and> calls s' = calls s @ (if ptr ub = nullptr then [] else [Invoke (deleter ub) (ptr ub)])
               \<and> (ptr ua \<in> address ` set (drop (length (calls s)) (calls s'))
                    \<longleftrightarrow> ptr ub = ptr ua \<and> ptr ua \<noteq> nullptr))"
  proof (intro allI impI)
    fix b ub
    assume h: "owner_at s b = Some ub \<and> b \<noteq> a"
    show "\<exists>s' ua' ub'. do_move_assign D s b a = Some s'
               \<and> owner_at s' a = Some ua' \<and> owner_at s' b = Some ub'
               \<and> ptr ua' = nullptr \<and> deleter ua' = moved_from D (deleter ua)
               \<and> ptr ub' = ptr ua \<and> deleter ub' = deleter ua
               \<and> calls s' = calls s @ (if ptr ub = nullptr then [] else [Invoke (deleter ub) (ptr ub)])
               \<and> (ptr ua \<in> address ` set (drop (length (calls s)) (calls s'))
                    \<longleftrightarrow> ptr ub = ptr ua \<and> ptr ua \<noteq> nullptr)"
      using assms h by (intro move_assign_transfers) auto
  qed
qed

text \<open>
  The witness uses a deleter with state: a natural number that a move resets to \<open>0\<close>.
  Owner \<open>0\<close> holds address \<open>3\<close> with deleter \<open>11\<close>, owner \<open>1\<close> holds address \<open>4\<close> with
  deleter \<open>22\<close>.
\<close>

theorem move_transfers_address_and_deleter_witness:
  "(\<exists>b s' ua' ub'.
      do_move_construct \<lparr>moved_from = (\<lambda>d. 0), self_moved = (\<lambda>d. d)\<rparr>
        \<lparr>owners = [Some \<lparr>deleter = 11 :: nat, ptr = 3\<rparr>, Some \<lparr>deleter = 22, ptr = 4\<rparr>],
         calls = []\<rparr> 0 = Some (b, s')
      \<and> owner_at s' 0 = Some ua' \<and> owner_at s' b = Some ub'
      \<and> ptr ua' = nullptr \<and> deleter ua' = 0 \<and> ptr ub' = 3 \<and> deleter ub' = 11
      \<and> calls s' = [])
   \<and> (\<exists>s' ua' ub'.
      do_move_assign \<lparr>moved_from = (\<lambda>d. 0), self_moved = (\<lambda>d. d)\<rparr>
        \<lparr>owners = [Some \<lparr>deleter = 11 :: nat, ptr = 3\<rparr>, Some \<lparr>deleter = 22, ptr = 4\<rparr>],
         calls = []\<rparr> 1 0 = Some s'
      \<and> owner_at s' 0 = Some ua' \<and> owner_at s' 1 = Some ub'
      \<and> ptr ua' = nullptr \<and> deleter ua' = 0 \<and> ptr ub' = 3 \<and> deleter ub' = 11
      \<and> calls s' = [Invoke 22 4] \<and> 3 \<notin> address ` set (calls s'))"
proof -
  let ?D = "\<lparr>moved_from = (\<lambda>d::nat. 0), self_moved = (\<lambda>d. d)\<rparr>"
  let ?s = "\<lparr>owners = [Some \<lparr>deleter = 11 :: nat, ptr = 3\<rparr>, Some \<lparr>deleter = 22, ptr = 4\<rparr>],
             calls = []\<rparr>"
  have a: "owner_at ?s 0 = Some \<lparr>deleter = 11, ptr = 3\<rparr>"
    by (simp add: owner_at_def)
  have b: "owner_at ?s 1 = Some \<lparr>deleter = 22, ptr = 4\<rparr> \<and> (1::nat) \<noteq> 0"
    by (simp add: owner_at_def)
  note t = move_transfers_address_and_deleter [OF a, of ?D]
  from t obtain b s' ua' ub' where
    "do_move_construct ?D ?s 0 = Some (b, s')" "owner_at s' 0 = Some ua'"
    "owner_at s' b = Some ub'" "ptr ua' = nullptr" "deleter ua' = 0" "ptr ub' = 3"
    "deleter ub' = 11" "calls s' = []"
    by (elim conjE exE) simp
  then have construct: "\<exists>b s' ua' ub'. do_move_construct ?D ?s 0 = Some (b, s')
      \<and> owner_at s' 0 = Some ua' \<and> owner_at s' b = Some ub'
      \<and> ptr ua' = nullptr \<and> deleter ua' = 0 \<and> ptr ub' = 3 \<and> deleter ub' = 11
      \<and> calls s' = []"
    by blast
  from t [THEN conjunct2, rule_format, OF b] obtain s' ua' ub' where
    "do_move_assign ?D ?s 1 0 = Some s'" "owner_at s' 0 = Some ua'" "owner_at s' 1 = Some ub'"
    "ptr ua' = nullptr" "deleter ua' = 0" "ptr ub' = 3" "deleter ub' = 11"
    "calls s' = [Invoke 22 4]" "3 \<notin> address ` set (calls s')"
    by (elim conjE exE) (simp add: nullptr_def)
  then have assign: "\<exists>s' ua' ub'. do_move_assign ?D ?s 1 0 = Some s'
      \<and> owner_at s' 0 = Some ua' \<and> owner_at s' 1 = Some ub'
      \<and> ptr ua' = nullptr \<and> deleter ua' = 0 \<and> ptr ub' = 3 \<and> deleter ub' = 11
      \<and> calls s' = [Invoke 22 4] \<and> 3 \<notin> address ` set (calls s')"
    by blast
  from construct assign show ?thesis
    by (rule conjI)
qed

section \<open>Self-move-assignment\<close>

text \<open>
  C10. For a live owner \<open>o\<close> holding the owner value \<open>u\<close>, \<open>o = std::move(o)\<close> leaves \<open>o\<close>
  holding the address it held and makes no deleter call: \<open>release\<close> first empties \<open>o\<close>
  and hands the address to \<open>reset\<close>, which finds the null pointer as the old address
  and installs the address again. The stored deleter is then what \<open>D\<close>'s own self-move
  leaves of it; where that changes nothing, as for \<open>default_delete\<close>, the whole store
  is as before.
\<close>

theorem self_move_assign_keeps_address:
  assumes "owner_at s i = Some u"
  shows "\<exists>s1 s2 s'. do_release s i = Some (ptr u, s1)
           \<and> owner_at s1 i = Some (u\<lparr>ptr := nullptr\<rparr>)
           \<and> do_reset s1 i (ptr u) = Some s2
           \<and> owner_at s2 i = Some u \<and> calls s2 = calls s
           \<and> do_move_assign D s i i = Some s'
           \<and> owner_at s' i = Some (u\<lparr>deleter := self_moved D (deleter u)\<rparr>)
           \<and> calls s' = calls s
           \<and> (self_moved D (deleter u) = deleter u \<longrightarrow> s' = s)"
proof -
  have len: "i < length (owners s)"
    using assms by (rule owner_at_Some_length)
  have same: "(owners s)[i := Some u] = owners s"
    using assms len by (simp add: owner_at_def list_update_same_conv)
  show ?thesis
    using assms len same
    by (auto simp: do_move_assign_def do_release_def release_def do_reset_def reset_def
        assign_deleter_def owner_at_def put_def)
qed

theorem self_move_assign_keeps_address_witness:
  "do_move_assign default_delete_type
     \<lparr>owners = [Some \<lparr>deleter = Delete_array, ptr = 8\<rparr>], calls = []\<rparr> 0 0
   = Some \<lparr>owners = [Some \<lparr>deleter = Delete_array, ptr = 8\<rparr>], calls = []\<rparr>"
proof -
  have live: "owner_at \<lparr>owners = [Some \<lparr>deleter = Delete_array, ptr = 8\<rparr>], calls = []\<rparr> 0
                = Some \<lparr>deleter = Delete_array, ptr = 8\<rparr>"
    by (simp add: owner_at_def)
  from self_move_assign_keeps_address [OF live, of default_delete_type] show ?thesis
    by (auto simp: default_delete_type_def)
qed

section \<open>Exclusive ownership across a program\<close>

lemma mset_owned_update:
  "i < length xs \<Longrightarrow>
     mset (concat (map owned (xs[i := y]))) + mset (owned (xs ! i))
       = mset (concat (map owned xs)) + mset (owned y)"
proof (induction xs arbitrary: i)
  case Nil
  then show ?case by simp
next
  case (Cons x xs)
  show ?case
  proof (cases i)
    case 0
    then show ?thesis by simp
  next
    case (Suc k)
    with Cons.prems have "k < length xs" by simp
    from Cons.IH [OF this] Suc show ?thesis
      by (simp add: ac_simps)
  qed
qed

lemma distinct_count_le_1: "distinct xs \<longleftrightarrow> (\<forall>a. count (mset xs) a \<le> 1)"
proof (induction xs)
  case Nil
  show ?case by simp
next
  case (Cons x xs)
  show ?case
  proof
    assume d: "distinct (x # xs)"
    then have "\<forall>a. count (mset xs) a \<le> 1" and "count (mset xs) x = 0"
      using Cons.IH by (auto simp: count_eq_zero_iff)
    then show "\<forall>a. count (mset (x # xs)) a \<le> 1"
      by auto
  next
    assume c: "\<forall>a. count (mset (x # xs)) a \<le> 1"
    then have "count (mset xs) x = 0"
      using c [rule_format, of x] by simp
    then have "x \<notin> set xs"
      by (simp add: count_eq_zero_iff)
    moreover have "\<forall>a. count (mset xs) a \<le> 1"
    proof
      fix a
      have "count (mset xs) a \<le> count (mset (x # xs)) a"
        by simp
      also have "\<dots> \<le> 1"
        by (rule c [rule_format])
      finally show "count (mset xs) a \<le> 1" .
    qed
    ultimately show "distinct (x # xs)"
      using Cons.IH by simp
  qed
qed

lemma exclusive_count: "exclusive s \<longleftrightarrow> (\<forall>a. count (accounted s) a \<le> 1)"
  by (simp add: exclusive_def accounted_def distinct_count_le_1)

lemma held_put:
  assumes "owner_at s i = Some u"
  shows "mset (held (put s i u')) + mset (owned (Some u)) = mset (held s) + mset (owned (Some u'))"
proof -
  have len: "i < length (owners s)"
    using assms by (rule owner_at_Some_length)
  have at: "owners s ! i = Some u"
    using assms len by (simp add: owner_at_def)
  from mset_owned_update [OF len, of "Some u'"] at show ?thesis
    by (simp add: held_def put_def)
qed

lemma deleted_put: "deleted (put s i u) = deleted s"
  by (simp add: deleted_def put_def)

lemma accounted_release:
  assumes "do_release s i = Some (p, s')"
  shows "accounted s' + (if p = nullptr then {#} else {#p#}) = accounted s"
proof -
  from assms obtain u where u: "owner_at s i = Some u"
    and p: "p = ptr u" and s': "s' = put s i (u\<lparr>ptr := nullptr\<rparr>)"
    by (auto simp: do_release_def release_def split: option.splits)
  from held_put [OF u, of "u\<lparr>ptr := nullptr\<rparr>"] show ?thesis
    by (simp add: accounted_def s' p deleted_put owned_def split: if_splits)
qed

lemma accounted_reset:
  assumes "do_reset s i p = Some s'"
  shows "accounted s' = accounted s + (if p = nullptr then {#} else {#p#})"
proof -
  from assms obtain u where u: "owner_at s i = Some u"
    and s': "s' = (put s i (u\<lparr>ptr := p\<rparr>))
                    \<lparr>calls := calls s @ (if ptr u \<noteq> nullptr then [Invoke (deleter u) (ptr u)] else [])\<rparr>"
    by (auto simp: do_reset_def reset_def Let_def split: option.splits)
  have h: "held s' = held (put s i (u\<lparr>ptr := p\<rparr>))"
    by (simp add: s' held_def)
  have d: "mset (deleted s') = mset (deleted s) + mset (owned (Some u))"
    by (simp add: s' deleted_def put_def owned_def)
  from held_put [OF u, of "u\<lparr>ptr := p\<rparr>"] show ?thesis
    by (simp add: accounted_def h d owned_def ac_simps split: if_splits)
qed

lemma accounted_destroy:
  assumes "do_destroy s i = Some s'"
  shows "accounted s' = accounted s"
proof -
  from assms obtain u where u: "owner_at s i = Some u"
    and s': "s' = s\<lparr>owners := (owners s)[i := None], calls := calls s @ destructor u\<rparr>"
    by (auto simp: do_destroy_def split: option.splits)
  have len: "i < length (owners s)"
    using u by (rule owner_at_Some_length)
  have at: "owners s ! i = Some u"
    using u len by (simp add: owner_at_def)
  have h: "mset (held s') + mset (owned (Some u)) = mset (held s)"
    using mset_owned_update [OF len, of None] at by (simp add: s' held_def owned_def)
  have d: "mset (deleted s') = mset (deleted s) + mset (owned (Some u))"
    by (simp add: s' deleted_def destructor_def owned_def)
  from h d show ?thesis
    by (simp add: accounted_def ac_simps)
qed

lemma accounted_move_construct:
  assumes "do_move_construct D s r = Some (b, s')"
  shows "accounted s' = accounted s"
proof -
  let ?src = "\<lambda>u. u\<lparr>deleter := moved_from D (deleter u), ptr := nullptr\<rparr>"
  from assms obtain u where u: "owner_at s r = Some u"
    and s': "s' = (put s r (?src u))
                    \<lparr>owners := owners (put s r (?src u)) @ [Some \<lparr>deleter = deleter u, ptr = ptr u\<rparr>]\<rparr>"
    by (auto simp: do_move_construct_def move_constructor_def split: option.splits)
  have h: "mset (held s') = mset (held (put s r (?src u))) + mset (owned (Some u))"
    by (simp add: s' held_def owned_def)
  have d: "deleted s' = deleted s"
    by (simp add: s' deleted_def put_def)
  from held_put [OF u, of "?src u"] have "mset (held (put s r (?src u))) + mset (owned (Some u)) = mset (held s)"
    by (simp add: owned_def)
  with h d show ?thesis
    by (simp add: accounted_def)
qed

lemma accounted_put_same_address:
  assumes "owner_at s i = Some u" and "ptr u' = ptr u"
  shows "accounted (put s i u') = accounted s"
proof -
  have "owned (Some u') = owned (Some u)"
    using assms(2) by (simp add: owned_def)
  with held_put [OF assms(1), of u'] show ?thesis
    by (simp add: accounted_def deleted_put)
qed

lemma accounted_assign_deleter:
  assumes "assign_deleter D s this r = Some s'"
  shows "accounted s' = accounted s"
proof -
  from assms obtain t u where t: "owner_at s this = Some t" and u: "owner_at s r = Some u"
    by (auto simp: assign_deleter_def split: option.splits)
  show ?thesis
  proof (cases "this = r")
    case True
    with assms t u have "s' = put s this (t\<lparr>deleter := self_moved D (deleter t)\<rparr>)"
      by (simp add: assign_deleter_def)
    then show ?thesis
      using accounted_put_same_address [OF t] by simp
  next
    case False
    let ?s1 = "put s this (t\<lparr>deleter := deleter u\<rparr>)"
    from False assms t u have s': "s' = put ?s1 r (u\<lparr>deleter := moved_from D (deleter u)\<rparr>)"
      by (simp add: assign_deleter_def)
    have u1: "owner_at ?s1 r = Some u"
      using u False by (simp add: owner_at_put_other)
    have "accounted s' = accounted ?s1"
      unfolding s' using accounted_put_same_address [OF u1] by simp
    also have "\<dots> = accounted s"
      using accounted_put_same_address [OF t] by simp
    finally show ?thesis .
  qed
qed

lemma accounted_move_assign:
  assumes "do_move_assign D s this r = Some s'"
  shows "accounted s' = accounted s"
proof -
  from assms obtain p s1 s2 where r1: "do_release s r = Some (p, s1)"
    and r2: "do_reset s1 this p = Some s2" and r3: "assign_deleter D s2 this r = Some s'"
    by (auto simp: do_move_assign_def split: option.splits)
  from accounted_release [OF r1] accounted_reset [OF r2] accounted_assign_deleter [OF r3]
  show ?thesis
    by simp
qed

lemma accounted_swap:
  assumes "do_swap s this other = Some s'"
  shows "accounted s' = accounted s"
proof -
  from assms obtain t u where t: "owner_at s this = Some t" and u: "owner_at s other = Some u"
    and s': "s' = put (put s this u) other t"
    by (auto simp: do_swap_def split: option.splits)
  have lt: "this < length (owners s)"
    using t by (rule owner_at_Some_length)
  have u1: "owner_at (put s this u) other = Some u"
    using u lt by (cases "other = this") (simp_all add: owner_at_put_same owner_at_put_other)
  from held_put [OF t, of u] held_put [OF u1, of t]
  have "mset (held s') = mset (held s)"
    unfolding s' by (metis add.commute add_right_cancel)
  then show ?thesis
    by (simp add: accounted_def s' deleted_put)
qed

lemma accounted_construct:
  "accounted (snd (do_construct s p d)) = accounted s + (if p = nullptr then {#} else {#p#})"
  by (simp add: accounted_def do_construct_def held_def deleted_def owned_def)

lemma accounted_exec:
  assumes "exec D s x = Some s'"
  shows "accounted s' = accounted s
       \<or> accounted s' \<subseteq># accounted s
       \<or> (\<exists>p. handed_over x = Some p \<and> p \<noteq> nullptr \<and> accounted s' = add_mset p (accounted s))"
proof (cases x)
  case (Construct p d)
  with assms accounted_construct [of s p d] show ?thesis
    by (cases "p = nullptr") auto
next
  case (Move_construct r)
  with assms accounted_move_construct show ?thesis
    by fastforce
next
  case (Move_assign this r)
  with assms accounted_move_assign show ?thesis
    by fastforce
next
  case (Release i)
  with assms obtain p where "do_release s i = Some (p, s')"
    by auto
  from accounted_release [OF this] have "accounted s' \<subseteq># accounted s"
    by (metis mset_subset_eq_add_left)
  then show ?thesis by simp
next
  case (Reset i p)
  with assms accounted_reset [of s i p s'] show ?thesis
    by (cases "p = nullptr") auto
next
  case (Swap i j)
  with assms accounted_swap show ?thesis
    by fastforce
next
  case (Destroy i)
  with assms accounted_destroy show ?thesis
    by fastforce
qed

lemma exec_preserves_exclusive:
  assumes ex: "exclusive s" and ad: "admissible s x" and run: "exec D s x = Some s'"
  shows "exclusive s'"
proof -
  have le: "\<forall>a. count (accounted s) a \<le> 1"
    using ex by (simp add: exclusive_count)
  from accounted_exec [OF run] consider
    (same) "accounted s' = accounted s"
    | (less) "accounted s' \<subseteq># accounted s"
    | (more) p where "handed_over x = Some p" "p \<noteq> nullptr" "accounted s' = add_mset p (accounted s)"
    by blast
  then have "\<forall>a. count (accounted s') a \<le> 1"
  proof cases
    case same
    with le show ?thesis by simp
  next
    case less
    show ?thesis
    proof
      fix a
      have "count (accounted s') a \<le> count (accounted s) a"
        using less by (rule mset_subset_eq_count)
      with le show "count (accounted s') a \<le> 1"
        by (meson le_trans)
    qed
  next
    case more
    from ad more(1,2) have "p \<notin> set (held s @ deleted s)"
      by (simp add: admissible_def)
    then have "count (accounted s) p = 0"
      by (simp add: accounted_def count_eq_zero_iff)
    with le more(3) show ?thesis
      by auto
  qed
  then show ?thesis
    by (simp add: exclusive_count)
qed

lemma run_preserves_exclusive:
  "exclusive s \<Longrightarrow> disciplined D s xs \<Longrightarrow> run D s xs = Some s' \<Longrightarrow> exclusive s'"
proof (induction xs arbitrary: s)
  case Nil
  then show ?case by simp
next
  case (Cons x xs)
  from Cons.prems(3) obtain s1 where s1: "exec D s x = Some s1" and rest: "run D s1 xs = Some s'"
    by (auto split: option.splits)
  from Cons.prems(2) s1 have ad: "admissible s x" and di: "disciplined D s1 xs"
    by auto
  from exec_preserves_exclusive [OF Cons.prems(1) ad s1] have "exclusive s1" .
  from Cons.IH [OF this di rest] show ?case .
qed


lemma release_clears_quietly:
  assumes "owner_at s r = Some u"
  shows "\<exists>s1 u1. do_release s r = Some (ptr u, s1) \<and> calls s1 = calls s
            \<and> owner_at s1 r = Some u1 \<and> ptr u1 = nullptr"
proof -
  have len: "r < length (owners s)"
    using assms by (rule owner_at_Some_length)
  show ?thesis
    using assms len by (simp add: do_release_def release_def owner_at_put_same calls_put)
qed

lemma move_construct_clears_quietly:
  assumes "owner_at s r = Some u"
  shows "\<exists>b s1 u1. do_move_construct D s r = Some (b, s1) \<and> calls s1 = calls s
            \<and> owner_at s1 r = Some u1 \<and> ptr u1 = nullptr"
proof -
  have len: "r < length (owners s)"
    using assms by (rule owner_at_Some_length)
  show ?thesis
    using assms len
    by (simp add: do_move_construct_def move_constructor_def owner_at_def put_def nth_append)
qed

lemma do_release_live:
  "owner_at s r = Some u \<Longrightarrow> do_release s r = Some (ptr u, put s r (u\<lparr>ptr := nullptr\<rparr>))"
  by (simp add: do_release_def release_def)

lemma do_reset_live:
  "owner_at s i = Some t \<Longrightarrow>
     do_reset s i p =
       Some ((put s i (t\<lparr>ptr := p\<rparr>))
               \<lparr>calls := calls s @ (if ptr t \<noteq> nullptr then [Invoke (deleter t) (ptr t)] else [])\<rparr>)"
  by (simp add: do_reset_def reset_def Let_def)

lemma owner_at_calls_update: "owner_at (s\<lparr>calls := cs\<rparr>) i = owner_at s i"
  by (simp add: owner_at_def)

lemma assign_deleter_live:
  assumes "owner_at s this = Some t" and "owner_at s r = Some u"
  shows "\<exists>s'. assign_deleter D s this r = Some s' \<and> calls s' = calls s"
  using assms by (simp add: assign_deleter_def calls_put)

lemma move_assign_clears_first:
  assumes r: "owner_at s r = Some u" and t: "owner_at s this = Some t"
  shows "\<exists>s1 u1 s2 s'. do_release s r = Some (ptr u, s1) \<and> calls s1 = calls s
            \<and> owner_at s1 r = Some u1 \<and> ptr u1 = nullptr
            \<and> do_reset s1 this (ptr u) = Some s2
            \<and> assign_deleter D s2 this r = Some s'
            \<and> do_move_assign D s this r = Some s'
            \<and> calls s' = calls s2"
proof -
  let ?s1 = "put s r (u\<lparr>ptr := nullptr\<rparr>)"
  have lr: "r < length (owners s)"
    using r by (rule owner_at_Some_length)
  have lt: "this < length (owners s)"
    using t by (rule owner_at_Some_length)
  have rel: "do_release s r = Some (ptr u, ?s1)"
    using r by (rule do_release_live)
  have quiet: "calls ?s1 = calls s"
    by (rule calls_put)
  have r1: "owner_at ?s1 r = Some (u\<lparr>ptr := nullptr\<rparr>)"
    using lr by (rule owner_at_put_same)
  obtain t1 where t1: "owner_at ?s1 this = Some t1"
    using t r1 by (cases "this = r") (simp_all add: owner_at_put_other)
  let ?s2 = "(put ?s1 this (t1\<lparr>ptr := ptr u\<rparr>))
               \<lparr>calls := calls ?s1 @ (if ptr t1 \<noteq> nullptr then [Invoke (deleter t1) (ptr t1)] else [])\<rparr>"
  have res: "do_reset ?s1 this (ptr u) = Some ?s2"
    using t1 by (rule do_reset_live)
  have lt1: "this < length (owners ?s1)"
    using lt by (simp add: length_owners_put)
  have t2: "owner_at ?s2 this = Some (t1\<lparr>ptr := ptr u\<rparr>)"
    using lt1 by (simp add: owner_at_calls_update owner_at_put_same)
  obtain u2 where u2: "owner_at ?s2 r = Some u2"
    using t2 r1 by (cases "this = r") (simp_all add: owner_at_calls_update owner_at_put_other)
  from assign_deleter_live [OF t2 u2, of D] obtain s' where
    asg: "assign_deleter D ?s2 this r = Some s'" and same: "calls s' = calls ?s2"
    by blast
  have whole: "do_move_assign D s this r = Some s'"
    using rel res asg by (simp add: do_move_assign_def)
  have "ptr (u\<lparr>ptr := nullptr\<rparr>) = nullptr"
    by simp
  with rel quiet r1 res asg whole same show ?thesis
    by blast
qed

text \<open>
  C4 as stated fails for some sequences of operations: an owner that is reset to the
  address it holds deletes that address and keeps it, and its destructor deletes it
  again.
\<close>

theorem reset_to_held_address_deletes_twice:
  "run default_delete_type
     \<lparr>owners = [Some \<lparr>deleter = Delete_object, ptr = 7\<rparr>], calls = []\<rparr> [Reset 0 7, Destroy 0]
     = Some \<lparr>owners = [None], calls = [Invoke Delete_object 7, Invoke Delete_object 7]\<rparr>
   \<and> count_list
       (deleted \<lparr>owners = [None], calls = [Invoke Delete_object 7, Invoke Delete_object 7]\<rparr>) 7
     = 2"
  by (simp add: do_reset_def reset_def do_destroy_def destructor_def owner_at_def put_def
      nullptr_def deleted_def)

text \<open>
  C4, amended. In every transfer from a live owner \<open>r\<close> the source holds the null
  pointer before any deleter call is made: \<open>release\<close> and move construction empty the
  source and make no call at all, and move assignment to a live owner is \<open>release\<close> on
  the source, which makes no call and leaves the source null, followed by \<open>reset\<close> on
  the destination, which makes the only calls, followed by the assignment of the
  deleter.

  So, starting from a store in which no address is held twice or held after it was
  deleted, every sequence of operations in which each address handed to an owner (at
  construction or by \<open>reset\<close>) is null or is neither held nor already deleted keeps
  that property: the deleter is called at most once on any address, and never on an
  address that an owner still holds.
\<close>

theorem transfers_clear_source_before_deletion:
  "(\<forall>r u. owner_at s r = Some u \<longrightarrow>
       (\<exists>s1 u1. do_release s r = Some (ptr u, s1) \<and> calls s1 = calls s
            \<and> owner_at s1 r = Some u1 \<and> ptr u1 = nullptr)
     \<and> (\<exists>b s1 u1. do_move_construct D s r = Some (b, s1) \<and> calls s1 = calls s
            \<and> owner_at s1 r = Some u1 \<and> ptr u1 = nullptr)
     \<and> (\<forall>this t. owner_at s this = Some t \<longrightarrow>
           (\<exists>s1 u1 s2 s'. do_release s r = Some (ptr u, s1) \<and> calls s1 = calls s
              \<and> owner_at s1 r = Some u1 \<and> ptr u1 = nullptr
              \<and> do_reset s1 this (ptr u) = Some s2
              \<and> assign_deleter D s2 this r = Some s'
              \<and> do_move_assign D s this r = Some s'
              \<and> calls s' = calls s2)))
   \<and> (\<forall>xs s'. exclusive s \<and> disciplined D s xs \<and> run D s xs = Some s' \<longrightarrow>
         exclusive s' \<and> distinct (deleted s') \<and> set (held s') \<inter> set (deleted s') = {})"
proof (intro conjI allI impI)
  fix r u assume "owner_at s r = Some u"
  then show "\<exists>s1 u1. do_release s r = Some (ptr u, s1) \<and> calls s1 = calls s
            \<and> owner_at s1 r = Some u1 \<and> ptr u1 = nullptr"
    by (rule release_clears_quietly)
next
  fix r u assume "owner_at s r = Some u"
  then show "\<exists>b s1 u1. do_move_construct D s r = Some (b, s1) \<and> calls s1 = calls s
            \<and> owner_at s1 r = Some u1 \<and> ptr u1 = nullptr"
    by (rule move_construct_clears_quietly)
next
  fix r u this t assume "owner_at s r = Some u" "owner_at s this = Some t"
  then show "\<exists>s1 u1 s2 s'. do_release s r = Some (ptr u, s1) \<and> calls s1 = calls s
              \<and> owner_at s1 r = Some u1 \<and> ptr u1 = nullptr
              \<and> do_reset s1 this (ptr u) = Some s2
              \<and> assign_deleter D s2 this r = Some s'
              \<and> do_move_assign D s this r = Some s'
              \<and> calls s' = calls s2"
    by (rule move_assign_clears_first)
next
  fix xs s' assume h: "exclusive s \<and> disciplined D s xs \<and> run D s xs = Some s'"
  then have e: "exclusive s'"
    using run_preserves_exclusive by blast
  then show "exclusive s'" .
  from e show "distinct (deleted s')"
    by (simp add: exclusive_def)
  from e show "set (held s') \<inter> set (deleted s') = {}"
    by (simp add: exclusive_def)
qed

text \<open>
  The witness runs seven operations on two owners holding the addresses \<open>3\<close> and \<open>4\<close>; the
  address \<open>5\<close> is handed to an owner, released and handed to a new owner.
\<close>

theorem transfers_clear_source_before_deletion_witness:
  "exclusive \<lparr>owners = [Some \<lparr>deleter = Delete_object, ptr = 3\<rparr>,
                         Some \<lparr>deleter = Delete_object, ptr = 4\<rparr>], calls = []\<rparr>
   \<and> disciplined default_delete_type
        \<lparr>owners = [Some \<lparr>deleter = Delete_object, ptr = 3\<rparr>,
                   Some \<lparr>deleter = Delete_object, ptr = 4\<rparr>], calls = []\<rparr>
        [Move_assign 1 0, Destroy 0, Reset 1 5, Release 1, Construct 5 Delete_object,
         Destroy 2, Destroy 1]
   \<and> run default_delete_type
        \<lparr>owners = [Some \<lparr>deleter = Delete_object, ptr = 3\<rparr>,
                   Some \<lparr>deleter = Delete_object, ptr = 4\<rparr>], calls = []\<rparr>
        [Move_assign 1 0, Destroy 0, Reset 1 5, Release 1, Construct 5 Delete_object,
         Destroy 2, Destroy 1]
      = Some \<lparr>owners = [None, None, None],
               calls = [Invoke Delete_object 4, Invoke Delete_object 3, Invoke Delete_object 5]\<rparr>
   \<and> exclusive \<lparr>owners = [None, None, None],
               calls = [Invoke Delete_object 4, Invoke Delete_object 3, Invoke Delete_object 5]\<rparr>
   \<and> (\<exists>s1 u1. do_release \<lparr>owners = [Some \<lparr>deleter = Delete_object, ptr = 3\<rparr>,
                   Some \<lparr>deleter = Delete_object, ptr = 4\<rparr>], calls = []\<rparr> 0 = Some (3, s1)
         \<and> calls s1 = [] \<and> owner_at s1 0 = Some u1 \<and> ptr u1 = nullptr)"
proof -
  let ?s = "\<lparr>owners = [Some \<lparr>deleter = Delete_object, ptr = 3\<rparr>,
                      Some \<lparr>deleter = Delete_object, ptr = 4\<rparr>], calls = []\<rparr>"
  let ?xs = "[Move_assign 1 0, Destroy 0, Reset 1 5, Release 1, Construct 5 Delete_object,
              Destroy 2, Destroy 1]"
  let ?s' = "\<lparr>owners = [None, None, None],
               calls = [Invoke Delete_object 4, Invoke Delete_object 3, Invoke Delete_object 5]\<rparr>"
  have e: "exclusive ?s"
    by (simp add: exclusive_def held_def deleted_def owned_def nullptr_def)
  have r: "run default_delete_type ?s ?xs = Some ?s'"
    by (simp add: do_move_assign_def do_release_def release_def do_reset_def reset_def
        assign_deleter_def do_destroy_def destructor_def do_construct_def owner_at_def put_def
        nullptr_def default_delete_type_def)
  have d: "disciplined default_delete_type ?s ?xs"
    by (simp add: admissible_def held_def deleted_def owned_def
        do_move_assign_def do_release_def release_def do_reset_def reset_def
        assign_deleter_def do_destroy_def destructor_def do_construct_def owner_at_def put_def
        nullptr_def default_delete_type_def)
  have live: "owner_at ?s 0 = Some \<lparr>deleter = Delete_object, ptr = 3\<rparr>"
    by (simp add: owner_at_def)
  note t = transfers_clear_source_before_deletion [of ?s default_delete_type]
  from t [THEN conjunct2, rule_format, of ?xs ?s'] e d r have e': "exclusive ?s'"
    by blast
  from t [THEN conjunct1, rule_format, OF live, THEN conjunct1]
  have "\<exists>s1 u1. do_release ?s 0 = Some (3, s1)
         \<and> calls s1 = [] \<and> owner_at s1 0 = Some u1 \<and> ptr u1 = nullptr"
    by simp
  with e d r e' show ?thesis
    by blast
qed

section \<open>Comparison operators\<close>

text \<open>
  C9. For owners \<open>x\<close>, \<open>y\<close>, \<open>z\<close> of any three owner types: \<open>x == y\<close> holds exactly when
  the held addresses are equal (two empty owners are equal), \<open>x != y\<close> exactly when they
  differ, and \<open>x < y\<close> exactly when the address of \<open>x\<close> is less than that of \<open>y\<close>;
  \<open>x <= y\<close> is \<open>!(y < x)\<close>, \<open>x > y\<close> is \<open>y < x\<close>, \<open>x >= y\<close> is \<open>!(x < y)\<close>; and \<open><\<close> is a
  strict total order: irreflexive, transitive, and exactly one of \<open>x < y\<close>, \<open>x == y\<close>,
  \<open>y < x\<close> holds.
\<close>

theorem comparison_follows_addresses:
  fixes x :: "'d unique_ptr" and y :: "'e unique_ptr" and z :: "'f unique_ptr"
  shows "(operator_eq x y \<longleftrightarrow> ptr x = ptr y)
       \<and> (ptr x = nullptr \<and> ptr y = nullptr \<longrightarrow> operator_eq x y)
       \<and> (operator_ne x y \<longleftrightarrow> ptr x \<noteq> ptr y)
       \<and> (operator_lt x y \<longleftrightarrow> ptr x < ptr y)
       \<and> (operator_le x y \<longleftrightarrow> \<not> operator_lt y x)
       \<and> (operator_gt x y \<longleftrightarrow> operator_lt y x)
       \<and> (operator_ge x y \<longleftrightarrow> \<not> operator_lt x y)
       \<and> \<not> operator_lt x x
       \<and> (operator_lt x y \<and> operator_lt y z \<longrightarrow> operator_lt x z)
       \<and> (operator_lt x y \<or> operator_eq x y \<or> operator_lt y x)
       \<and> \<not> (operator_lt x y \<and> operator_eq x y)
       \<and> \<not> (operator_eq x y \<and> operator_lt y x)
       \<and> \<not> (operator_lt x y \<and> operator_lt y x)"
  by (auto simp: operator_eq_def operator_ne_def operator_lt_def operator_le_def operator_gt_def
      operator_ge_def less_CT_def get_def)

theorem comparison_follows_addresses_witness:
  "operator_lt \<lparr>deleter = Delete_object, ptr = 1\<rparr> \<lparr>deleter = Delete_array, ptr = 2\<rparr>
   \<and> operator_lt \<lparr>deleter = Delete_array, ptr = 2\<rparr> \<lparr>deleter = (), ptr = 3\<rparr>
   \<and> operator_lt \<lparr>deleter = Delete_object, ptr = 1\<rparr> \<lparr>deleter = (), ptr = 3\<rparr>
   \<and> operator_eq \<lparr>deleter = Delete_object, ptr = nullptr\<rparr> \<lparr>deleter = (), ptr = nullptr\<rparr>"
proof -
  let ?x = "\<lparr>deleter = Delete_object, ptr = 1\<rparr>"
  let ?y = "\<lparr>deleter = Delete_array, ptr = 2\<rparr>"
  let ?z = "\<lparr>deleter = (), ptr = 3\<rparr>"
  have xy: "operator_lt ?x ?y"
    using comparison_follows_addresses [of ?x ?y ?z] by simp
  have yz: "operator_lt ?y ?z"
    using comparison_follows_addresses [of ?y ?z ?z] by simp
  have xz: "operator_lt ?x ?z"
    using comparison_follows_addresses [of ?x ?y ?z] xy yz by blast
  have nn: "operator_eq \<lparr>deleter = Delete_object, ptr = nullptr\<rparr> \<lparr>deleter = (), ptr = nullptr\<rparr>"
    using comparison_follows_addresses
      [of "\<lparr>deleter = Delete_object, ptr = nullptr\<rparr>" "\<lparr>deleter = (), ptr = nullptr\<rparr>" ?z]
    by simp
  from xy yz xz nn show ?thesis
    by simp
qed

section \<open>The destroy algorithms\<close>

lemma destroy_at_events: "events (destroy_at st i) = events st @ [Destroyed i]"
  by (simp add: destroy_at_def)

lemma destroy_at_cells: "cells (destroy_at st i) j = (if j = i then Raw else cells st j)"
  by (simp add: destroy_at_def)

lemma destroy_steps:
  "\<exists>st'. destroy st first (first + n) = Some st'
         \<and> events st' = events st @ map Destroyed [first..<first + n]
         \<and> (\<forall>j. cells st' j = (if first \<le> j \<and> j < first + n then Raw else cells st j))"
proof (induction n arbitrary: st first)
  case 0
  show ?case
    by (subst destroy.simps) auto
next
  case (Suc n)
  from Suc.IH [of "destroy_at st first" "Suc first"] obtain st' where
    run: "destroy (destroy_at st first) (Suc first) (Suc first + n) = Some st'"
    and ev: "events st' = events (destroy_at st first) @ map Destroyed [Suc first..<Suc first + n]"
    and ce: "\<forall>j. cells st' j = (if Suc first \<le> j \<and> j < Suc first + n then Raw
                                  else cells (destroy_at st first) j)"
    by blast
  have "destroy st first (first + Suc n) = Some st'"
    using run by (subst destroy.simps) simp
  moreover have "events st' = events st @ map Destroyed [first..<first + Suc n]"
    using ev by (simp add: destroy_at_events upt_conv_Cons)
  moreover have "\<forall>j. cells st' j = (if first \<le> j \<and> j < first + Suc n then Raw else cells st j)"
    using ce by (auto simp: destroy_at_cells)
  ultimately show ?case
    by blast
qed

lemma destroy_n_steps:
  "\<exists>st'. destroy_n st first (int n) = (first + n, st')
         \<and> events st' = events st @ map Destroyed [first..<first + n]
         \<and> (\<forall>j. cells st' j = (if first \<le> j \<and> j < first + n then Raw else cells st j))"
proof (induction n arbitrary: st first)
  case 0
  show ?case
    by (subst destroy_n.simps) auto
next
  case (Suc n)
  from Suc.IH [of "destroy_at st first" "Suc first"] obtain st' where
    run: "destroy_n (destroy_at st first) (Suc first) (int n) = (Suc first + n, st')"
    and ev: "events st' = events (destroy_at st first) @ map Destroyed [Suc first..<Suc first + n]"
    and ce: "\<forall>j. cells st' j = (if Suc first \<le> j \<and> j < Suc first + n then Raw
                                  else cells (destroy_at st first) j)"
    by blast
  have "destroy_n st first (int (Suc n)) = (first + Suc n, st')"
    using run by (subst destroy_n.simps) simp
  moreover have "events st' = events st @ map Destroyed [first..<first + Suc n]"
    using ev by (simp add: destroy_at_events upt_conv_Cons)
  moreover have "\<forall>j. cells st' j = (if first \<le> j \<and> j < first + Suc n then Raw else cells st j)"
    using ce by (auto simp: destroy_at_cells)
  ultimately show ?case
    by blast
qed

lemma count_destroyed_upt:
  "count_list (map Destroyed [a..<b]) (Destroyed j) = (if a \<le> j \<and> j < b then 1 else 0)"
  by (induction b) auto

text \<open>
  C8. \<open>destroy(first, last)\<close> on a range with \<open>first\<close> not after \<open>last\<close> returns, and
  \<open>destroy_n(first, n)\<close> returns for every \<open>n\<close>; the destructor calls they make are the
  calls on the covered slots in ascending order, so each covered slot is torn down
  exactly once and no other slot at all; \<open>destroy_n\<close> returns \<open>first\<close> advanced by the
  number of slots destroyed (none when \<open>n\<close> is not positive).
\<close>

theorem destroy_tears_down_each_slot_once:
  "(first \<le> last' \<longrightarrow>
      (\<exists>st'. destroy st first last' = Some st'
         \<and> events st' = events st @ map Destroyed [first..<last']
         \<and> (\<forall>j. count_list (drop (length (events st)) (events st')) (Destroyed j)
                  = (if first \<le> j \<and> j < last' then 1 else 0))
         \<and> (\<forall>j. cells st' j = (if first \<le> j \<and> j < last' then Raw else cells st j))))
   \<and> (\<exists>st'. destroy_n st first n = (first + nat n, st')
         \<and> events st' = events st @ map Destroyed [first..<first + nat n]
         \<and> (\<forall>j. count_list (drop (length (events st)) (events st')) (Destroyed j)
                  = (if first \<le> j \<and> j < first + nat n then 1 else 0))
         \<and> (\<forall>j. cells st' j = (if first \<le> j \<and> j < first + nat n then Raw else cells st j)))"
proof (intro conjI impI)
  assume le: "first \<le> last'"
  from destroy_steps [of st first "last' - first"] le obtain st' where
    run: "destroy st first last' = Some st'"
    and ev: "events st' = events st @ map Destroyed [first..<last']"
    and ce: "\<forall>j. cells st' j = (if first \<le> j \<and> j < last' then Raw else cells st j)"
    by auto
  have "\<forall>j. count_list (drop (length (events st)) (events st')) (Destroyed j)
              = (if first \<le> j \<and> j < last' then 1 else 0)"
    using ev by (simp add: count_destroyed_upt)
  with run ev ce
  show "\<exists>st'. destroy st first last' = Some st'
         \<and> events st' = events st @ map Destroyed [first..<last']
         \<and> (\<forall>j. count_list (drop (length (events st)) (events st')) (Destroyed j)
                  = (if first \<le> j \<and> j < last' then 1 else 0))
         \<and> (\<forall>j. cells st' j = (if first \<le> j \<and> j < last' then Raw else cells st j))"
    by blast
next
  from destroy_n_steps [of st first "nat n"] obtain st' where
    run0: "destroy_n st first (int (nat n)) = (first + nat n, st')"
    and ev: "events st' = events st @ map Destroyed [first..<first + nat n]"
    and ce: "\<forall>j. cells st' j = (if first \<le> j \<and> j < first + nat n then Raw else cells st j)"
    by blast
  have "destroy_n st first n = destroy_n st first (int (nat n))"
    by (cases "n \<le> 0") (subst destroy_n.simps, subst (2) destroy_n.simps, simp, simp)
  with run0 have run: "destroy_n st first n = (first + nat n, st')"
    by simp
  have "\<forall>j. count_list (drop (length (events st)) (events st')) (Destroyed j)
              = (if first \<le> j \<and> j < first + nat n then 1 else 0)"
    using ev by (simp add: count_destroyed_upt)
  with run ev ce
  show "\<exists>st'. destroy_n st first n = (first + nat n, st')
         \<and> events st' = events st @ map Destroyed [first..<first + nat n]
         \<and> (\<forall>j. count_list (drop (length (events st)) (events st')) (Destroyed j)
                  = (if first \<le> j \<and> j < first + nat n then 1 else 0))
         \<and> (\<forall>j. cells st' j = (if first \<le> j \<and> j < first + nat n then Raw else cells st j))"
    by blast
qed

theorem destroy_tears_down_each_slot_once_witness:
  "(\<exists>st'. destroy \<lparr>cells = (\<lambda>i. Live i), events = []\<rparr> 2 5 = Some st'
       \<and> events st' = [Destroyed 2, Destroyed 3, Destroyed 4])
   \<and> (\<exists>st'. destroy_n \<lparr>cells = (\<lambda>i. Live i), events = []\<rparr> 2 3 = (5, st')
       \<and> events st' = [Destroyed 2, Destroyed 3, Destroyed 4])"
proof -
  have le: "(2::nat) \<le> 5"
    by simp
  note t = destroy_tears_down_each_slot_once
    [of 2 5 "\<lparr>cells = (\<lambda>i. Live i), events = []\<rparr>" 3]
  from t [THEN conjunct1, rule_format, OF le] obtain st' where
    "destroy \<lparr>cells = (\<lambda>i. Live i), events = []\<rparr> 2 5 = Some st'"
    "events st' = [Destroyed 2, Destroyed 3, Destroyed 4]"
    by (elim conjE exE) (simp add: upt_conv_Cons)
  then have range: "\<exists>st'. destroy \<lparr>cells = (\<lambda>i. Live i), events = []\<rparr> 2 5 = Some st'
       \<and> events st' = [Destroyed 2, Destroyed 3, Destroyed 4]"
    by blast
  from t [THEN conjunct2] obtain st' where
    "destroy_n \<lparr>cells = (\<lambda>i. Live i), events = []\<rparr> 2 3 = (5, st')"
    "events st' = [Destroyed 2, Destroyed 3, Destroyed 4]"
    by (elim conjE exE) (simp add: upt_conv_Cons)
  then have counted: "\<exists>st'. destroy_n \<lparr>cells = (\<lambda>i. Live i), events = []\<rparr> 2 3 = (5, st')
       \<and> events st' = [Destroyed 2, Destroyed 3, Destroyed 4]"
    by blast
  from range counted show ?thesis
    by (rule conjI)
qed

section \<open>Move construction into raw storage\<close>

lemma construct_moved_live:
  "cells st first = Live v \<Longrightarrow>
     construct_moved T st result first =
       Some (st\<lparr>cells := (cells st)(first := Live (moved_out T v), result := Live v),
               events := events st @ [Constructed result]\<rparr>)"
  by (simp add: construct_moved_def)

text \<open>
  The counted loop on \<open>n\<close> live source slots that do not overlap the destination: it
  returns both end positions, constructs the destination slots in ascending order from
  the source values, leaves the moved-from values in the source and touches nothing
  else.
\<close>

lemma uninitialized_move_n_steps:
  assumes "\<forall>i<n. cells st (first + i) = Live (src i)"
    and "result + n \<le> first \<or> first + n \<le> result"
  shows "\<exists>st'. uninitialized_move_n T st first (int n) result = Some ((first + n, result + n), st')
           \<and> events st' = events st @ map Constructed [result..<result + n]
           \<and> (\<forall>i<n. cells st' (result + i) = Live (src i))
           \<and> (\<forall>i<n. cells st' (first + i) = Live (moved_out T (src i)))
           \<and> (\<forall>j. \<not> (first \<le> j \<and> j < first + n) \<and> \<not> (result \<le> j \<and> j < result + n)
                  \<longrightarrow> cells st' j = cells st j)"
  using assms
proof (induction n arbitrary: st first result src)
  case 0
  show ?case
    by (subst uninitialized_move_n.simps) auto
next
  case (Suc n)
  let ?st1 = "st\<lparr>cells := (cells st)(first := Live (moved_out T (src 0)), result := Live (src 0)),
                  events := events st @ [Constructed result]\<rparr>"
  have apart: "result + Suc n \<le> first \<or> first + Suc n \<le> result"
    by (rule Suc.prems(2))
  have head: "cells st first = Live (src 0)"
    using Suc.prems(1) by force
  have step: "construct_moved T st result first = Some ?st1"
    using head by (rule construct_moved_live)
  have pre1: "\<forall>i<n. cells ?st1 (Suc first + i) = Live (src (Suc i))"
  proof (intro allI impI)
    fix i assume "i < n"
    then have "cells st (first + Suc i) = Live (src (Suc i))"
      using Suc.prems(1) by auto
    moreover have "Suc first + i \<noteq> first" "Suc first + i \<noteq> result"
      using apart \<open>i < n\<close> by auto
    ultimately show "cells ?st1 (Suc first + i) = Live (src (Suc i))"
      by simp
  qed
  have pre2: "Suc result + n \<le> Suc first \<or> Suc first + n \<le> Suc result"
    using apart by auto
  from Suc.IH [of ?st1 "Suc first" "\<lambda>i. src (Suc i)" "Suc result", OF pre1 pre2]
  obtain st' where
    run: "uninitialized_move_n T ?st1 (Suc first) (int n) (Suc result)
            = Some ((Suc first + n, Suc result + n), st')"
    and ev: "events st' = events ?st1 @ map Constructed [Suc result..<Suc result + n]"
    and dst: "\<forall>i<n. cells st' (Suc result + i) = Live (src (Suc i))"
    and srcs: "\<forall>i<n. cells st' (Suc first + i) = Live (moved_out T (src (Suc i)))"
    and rest: "\<forall>j. \<not> (Suc first \<le> j \<and> j < Suc first + n)
                   \<and> \<not> (Suc result \<le> j \<and> j < Suc result + n) \<longrightarrow> cells st' j = cells ?st1 j"
    by blast
  have r1: "uninitialized_move_n T st first (int (Suc n)) result
              = Some ((first + Suc n, result + Suc n), st')"
    using run step by (subst uninitialized_move_n.simps) simp
  have r2: "events st' = events st @ map Constructed [result..<result + Suc n]"
    using ev by (simp add: upt_conv_Cons)
  have at_result: "cells st' result = Live (src 0)"
  proof -
    have "cells st' result = cells ?st1 result"
      using rest apart by auto
    then show ?thesis by simp
  qed
  have at_first: "cells st' first = Live (moved_out T (src 0))"
  proof -
    have "cells st' first = cells ?st1 first"
      using rest apart by auto
    moreover have "first \<noteq> result"
      using apart by auto
    ultimately show ?thesis by simp
  qed
  have r3: "\<forall>i<Suc n. cells st' (result + i) = Live (src i)"
  proof (intro allI impI)
    fix i assume "i < Suc n"
    show "cells st' (result + i) = Live (src i)"
    proof (cases i)
      case 0
      then show ?thesis using at_result by simp
    next
      case (Suc k)
      then show ?thesis using dst \<open>i < Suc n\<close> by auto
    qed
  qed
  have r4: "\<forall>i<Suc n. cells st' (first + i) = Live (moved_out T (src i))"
  proof (intro allI impI)
    fix i assume "i < Suc n"
    show "cells st' (first + i) = Live (moved_out T (src i))"
    proof (cases i)
      case 0
      then show ?thesis using at_first by simp
    next
      case (Suc k)
      then show ?thesis using srcs \<open>i < Suc n\<close> by auto
    qed
  qed
  have r5: "\<forall>j. \<not> (first \<le> j \<and> j < first + Suc n) \<and> \<not> (result \<le> j \<and> j < result + Suc n)
                  \<longrightarrow> cells st' j = cells st j"
  proof (intro allI impI)
    fix j assume out: "\<not> (first \<le> j \<and> j < first + Suc n) \<and> \<not> (result \<le> j \<and> j < result + Suc n)"
    then have "cells st' j = cells ?st1 j"
      using rest by auto
    moreover have "j \<noteq> first" "j \<noteq> result"
      using out by auto
    ultimately show "cells st' j = cells st j"
      by simp
  qed
  from r1 r2 r3 r4 r5 show ?case
    by blast
qed

text \<open>
  On a range of \<open>n\<close> slots the range loop takes the same steps as the counted loop and
  returns the second of its two positions.
\<close>

lemma uninitialized_move_as_n:
  "uninitialized_move T st first (first + n) result
     = map_option (\<lambda>(ends, st'). (snd ends, st')) (uninitialized_move_n T st first (int n) result)"
proof (induction n arbitrary: st first result)
  case 0
  show ?case
    by (subst uninitialized_move.simps, subst uninitialized_move_n.simps) simp
next
  case (Suc n)
  show ?case
  proof (cases "construct_moved T st result first")
    case None
    then show ?thesis
      by (subst uninitialized_move.simps, subst uninitialized_move_n.simps) simp
  next
    case (Some st1)
    have "uninitialized_move T st first (first + Suc n) result
            = uninitialized_move T st1 (Suc first) (Suc first + n) (Suc result)"
      using Some by (subst uninitialized_move.simps) simp
    also have "\<dots> = map_option (\<lambda>(ends, st'). (snd ends, st'))
                        (uninitialized_move_n T st1 (Suc first) (int n) (Suc result))"
      by (rule Suc.IH)
    also have "uninitialized_move_n T st1 (Suc first) (int n) (Suc result)
                 = uninitialized_move_n T st first (int (Suc n)) result"
      using Some by (subst (2) uninitialized_move_n.simps) simp
    finally show ?thesis .
  qed
qed

lemma uninitialized_move_steps:
  assumes "\<forall>i<n. cells st (first + i) = Live (src i)"
    and "result + n \<le> first \<or> first + n \<le> result"
  shows "\<exists>st'. uninitialized_move T st first (first + n) result = Some (result + n, st')
           \<and> events st' = events st @ map Constructed [result..<result + n]
           \<and> (\<forall>i<n. cells st' (result + i) = Live (src i))
           \<and> (\<forall>i<n. cells st' (first + i) = Live (moved_out T (src i)))
           \<and> (\<forall>j. \<not> (first \<le> j \<and> j < first + n) \<and> \<not> (result \<le> j \<and> j < result + n)
                  \<longrightarrow> cells st' j = cells st j)"
proof -
  from uninitialized_move_n_steps [OF assms, of T] obtain st' where
    run: "uninitialized_move_n T st first (int n) result = Some ((first + n, result + n), st')"
    and rest: "events st' = events st @ map Constructed [result..<result + n]"
      "\<forall>i<n. cells st' (result + i) = Live (src i)"
      "\<forall>i<n. cells st' (first + i) = Live (moved_out T (src i))"
      "\<forall>j. \<not> (first \<le> j \<and> j < first + n) \<and> \<not> (result \<le> j \<and> j < result + n)
            \<longrightarrow> cells st' j = cells st j"
    by blast
  have "uninitialized_move T st first (first + n) result = Some (result + n, st')"
    using run by (simp add: uninitialized_move_as_n)
  with rest show ?thesis
    by blast
qed

text \<open>
  C6 as stated fails for the range form: \<open>uninitialized_move\<close> returns one position, the
  end of the destination. Moving the slot \<open>0\<close> and moving the slot \<open>1\<close> to position
  \<open>5\<close> both return \<open>6\<close>, whatever the end of the source was.
\<close>

theorem uninitialized_move_returns_destination_end_only:
  "map_option fst
     (uninitialized_move int_type
        \<lparr>cells = (\<lambda>i. if i < 2 then Live (Int_value 7) else Raw), events = []\<rparr> 0 1 5) = Some 6
   \<and> map_option fst
     (uninitialized_move int_type
        \<lparr>cells = (\<lambda>i. if i < 2 then Live (Int_value 7) else Raw), events = []\<rparr> 1 2 5) = Some 6"
  by (simp add: uninitialized_move.simps construct_moved_def)

text \<open>
  C6, amended. On \<open>n\<close> live source slots starting at \<open>first\<close> that do not overlap the
  \<open>n\<close> slots starting at \<open>result\<close>, both forms construct the destination slots in
  ascending order, each from the value of the corresponding source slot. The range
  form \<open>uninitialized_move(first, first + n, result)\<close> returns the end of the destination
  only; the counted form \<open>uninitialized_move_n(first, n, result)\<close> returns the end of the
  source together with the end of the destination.
\<close>

theorem uninitialized_move_return_values:
  assumes "\<forall>i<n. cells st (first + i) = Live (src i)"
    and "result + n \<le> first \<or> first + n \<le> result"
  shows "(\<exists>st'. uninitialized_move T st first (first + n) result = Some (result + n, st')
            \<and> events st' = events st @ map Constructed [result..<result + n]
            \<and> (\<forall>i<n. cells st' (result + i) = Live (src i)))
       \<and> (\<exists>st'. uninitialized_move_n T st first (int n) result
                   = Some ((first + n, result + n), st')
            \<and> events st' = events st @ map Constructed [result..<result + n]
            \<and> (\<forall>i<n. cells st' (result + i) = Live (src i)))"
proof (rule conjI)
  from uninitialized_move_steps [OF assms, of T]
  show "\<exists>st'. uninitialized_move T st first (first + n) result = Some (result + n, st')
            \<and> events st' = events st @ map Constructed [result..<result + n]
            \<and> (\<forall>i<n. cells st' (result + i) = Live (src i))"
    by blast
next
  from uninitialized_move_n_steps [OF assms, of T]
  show "\<exists>st'. uninitialized_move_n T st first (int n) result
                   = Some ((first + n, result + n), st')
            \<and> events st' = events st @ map Constructed [result..<result + n]
            \<and> (\<forall>i<n. cells st' (result + i) = Live (src i))"
    by blast
qed

text \<open>
  The witnesses move two values, \<open>10\<close> and \<open>20\<close>, from the slots \<open>0\<close> and \<open>1\<close> to the
  slots \<open>5\<close> and \<open>6\<close>; a moved-from value is \<open>0\<close>.
\<close>

theorem uninitialized_move_return_values_witness:
  "(\<exists>st'. uninitialized_move \<lparr>default_init = 0, value_init = 0, moved_out = (\<lambda>v. 0)\<rparr>
            \<lparr>cells = (\<lambda>i. if i = 0 then Live (10::nat) else if i = 1 then Live 20 else Raw),
             events = []\<rparr> 0 2 5 = Some (7, st')
        \<and> events st' = [Constructed 5, Constructed 6]
        \<and> cells st' 5 = Live 10 \<and> cells st' 6 = Live 20)
   \<and> (\<exists>st'. uninitialized_move_n \<lparr>default_init = 0, value_init = 0, moved_out = (\<lambda>v. 0)\<rparr>
            \<lparr>cells = (\<lambda>i. if i = 0 then Live (10::nat) else if i = 1 then Live 20 else Raw),
             events = []\<rparr> 0 2 5 = Some ((2, 7), st')
        \<and> events st' = [Constructed 5, Constructed 6]
        \<and> cells st' 5 = Live 10 \<and> cells st' 6 = Live 20)"
proof -
  let ?T = "\<lparr>default_init = 0, value_init = 0, moved_out = (\<lambda>v::nat. 0)\<rparr>"
  let ?st = "\<lparr>cells = (\<lambda>i. if i = 0 then Live (10::nat) else if i = 1 then Live 20 else Raw),
              events = []\<rparr>"
  let ?src = "\<lambda>i::nat. if i = 0 then (10::nat) else 20"
  have live: "\<forall>i<2. cells ?st (0 + i) = Live (?src i)"
    by (auto simp: less_Suc_eq numeral_2_eq_2)
  have apart: "(5::nat) + 2 \<le> 0 \<or> (0::nat) + 2 \<le> 5"
    by simp
  note t = uninitialized_move_return_values [OF live apart, of ?T]
  from t [THEN conjunct1] obtain st' where
    run: "uninitialized_move ?T ?st 0 2 5 = Some (7, st')"
    and ev: "events st' = [Constructed 5, Constructed 6]"
    and dst: "\<forall>i<2. cells st' (5 + i) = Live (?src i)"
    by (elim conjE exE) (simp add: upt_conv_Cons del: add_2_eq_Suc add_2_eq_Suc')
  have "cells st' 5 = Live 10" "cells st' 6 = Live 20"
    using dst [rule_format, of 0] dst [rule_format, of 1] by simp_all
  with run ev have range: "\<exists>st'. uninitialized_move ?T ?st 0 2 5 = Some (7, st')
        \<and> events st' = [Constructed 5, Constructed 6]
        \<and> cells st' 5 = Live 10 \<and> cells st' 6 = Live 20"
    by blast
  from t [THEN conjunct2] obtain st' where
    run: "uninitialized_move_n ?T ?st 0 2 5 = Some ((2, 7), st')"
    and ev: "events st' = [Constructed 5, Constructed 6]"
    and dst: "\<forall>i<2. cells st' (5 + i) = Live (?src i)"
    by (elim conjE exE) (simp add: upt_conv_Cons del: add_2_eq_Suc add_2_eq_Suc')
  have "cells st' 5 = Live 10" "cells st' 6 = Live 20"
    using dst [rule_format, of 0] dst [rule_format, of 1] by simp_all
  with run ev have counted: "\<exists>st'. uninitialized_move_n ?T ?st 0 2 5 = Some ((2, 7), st')
        \<and> events st' = [Constructed 5, Constructed 6]
        \<and> cells st' 5 = Live 10 \<and> cells st' 6 = Live 20"
    by blast
  from range counted show ?thesis
    by (rule conjI)
qed

text \<open>
  C7. For a source range from \<open>first\<close> to \<open>last\<close> (\<open>first\<close> not after \<open>last\<close>) of live
  slots and a destination start \<open>result\<close> whose range does not overlap it,
  \<open>uninitialized_move(first, last, result)\<close> returns \<open>result + (last - first)\<close>; it makes
  exactly \<open>last - first\<close> constructions, on the slots from \<open>result\<close> upwards, and calls no
  destructor; each constructed slot holds the value its source slot held before; the
  source slots are still live, holding the moved-from values; every other slot is
  untouched.
\<close>

theorem uninitialized_move_constructs_range:
  assumes "first \<le> last'"
    and "\<forall>i < last' - first. cells st (first + i) = Live (src i)"
    and "result + (last' - first) \<le> first \<or> last' \<le> result"
  shows "\<exists>st'. uninitialized_move T st first last' result = Some (result + (last' - first), st')
           \<and> events st' = events st @ map Constructed [result..<result + (last' - first)]
           \<and> (\<forall>j. Destroyed j \<notin> set (drop (length (events st)) (events st')))
           \<and> (\<forall>i < last' - first. cells st' (result + i) = Live (src i))
           \<and> (\<forall>i < last' - first. cells st' (first + i) = Live (moved_out T (src i)))
           \<and> (\<forall>j. \<not> (first \<le> j \<and> j < last') \<and> \<not> (result \<le> j \<and> j < result + (last' - first))
                  \<longrightarrow> cells st' j = cells st j)"
proof -
  let ?n = "last' - first"
  have l: "first + ?n = last'"
    using assms(1) by simp
  have apart: "result + ?n \<le> first \<or> first + ?n \<le> result"
    using assms(3) l by simp
  from uninitialized_move_steps [OF assms(2) apart, of T] obtain st' where
    run: "uninitialized_move T st first (first + ?n) result = Some (result + ?n, st')"
    and ev: "events st' = events st @ map Constructed [result..<result + ?n]"
    and dst: "\<forall>i < ?n. cells st' (result + i) = Live (src i)"
    and srcs: "\<forall>i < ?n. cells st' (first + i) = Live (moved_out T (src i))"
    and rest: "\<forall>j. \<not> (first \<le> j \<and> j < first + ?n) \<and> \<not> (result \<le> j \<and> j < result + ?n)
                  \<longrightarrow> cells st' j = cells st j"
    by blast
  have run': "uninitialized_move T st first last' result = Some (result + ?n, st')"
    using run l by simp
  have none: "\<forall>j. Destroyed j \<notin> set (drop (length (events st)) (events st'))"
    using ev by auto
  have rest': "\<forall>j. \<not> (first \<le> j \<and> j < last') \<and> \<not> (result \<le> j \<and> j < result + ?n)
                  \<longrightarrow> cells st' j = cells st j"
    using rest l by simp
  from run' ev none dst srcs rest' show ?thesis
    by blast
qed

theorem uninitialized_move_constructs_range_witness:
  "\<exists>st'. uninitialized_move \<lparr>default_init = 0, value_init = 0, moved_out = (\<lambda>v. 0)\<rparr>
            \<lparr>cells = (\<lambda>i. if i = 0 then Live (10::nat) else if i = 1 then Live 20 else Raw),
             events = []\<rparr> 0 2 5 = Some (7, st')
        \<and> events st' = [Constructed 5, Constructed 6]
        \<and> cells st' 5 = Live 10 \<and> cells st' 6 = Live 20
        \<and> cells st' 0 = Live 0 \<and> cells st' 1 = Live 0
        \<and> cells st' 2 = Raw"
proof -
  let ?T = "\<lparr>default_init = 0, value_init = 0, moved_out = (\<lambda>v::nat. 0)\<rparr>"
  let ?st = "\<lparr>cells = (\<lambda>i. if i = 0 then Live (10::nat) else if i = 1 then Live 20 else Raw),
              events = []\<rparr>"
  let ?src = "\<lambda>i::nat. if i = 0 then (10::nat) else 20"
  have le: "(0::nat) \<le> 2"
    by simp
  have live: "\<forall>i < 2 - 0. cells ?st (0 + i) = Live (?src i)"
    by (auto simp: less_Suc_eq numeral_2_eq_2)
  have apart: "(5::nat) + (2 - 0) \<le> 0 \<or> (2::nat) \<le> 5"
    by simp
  from uninitialized_move_constructs_range [OF le live apart, of ?T] obtain st' where
    run: "uninitialized_move ?T ?st 0 2 5 = Some (7, st')"
    and ev: "events st' = [Constructed 5, Constructed 6]"
    and dst: "\<forall>i<2. cells st' (5 + i) = Live (?src i)"
    and srcs: "\<forall>i<2. cells st' (0 + i) = Live 0"
    and rest: "\<forall>j. \<not> (0 \<le> j \<and> j < 2) \<and> \<not> (5 \<le> j \<and> j < 5 + (2 - 0)) \<longrightarrow> cells st' j = cells ?st j"
    by (elim conjE exE) (simp add: upt_conv_Cons)
  have "cells st' 5 = Live 10" "cells st' 6 = Live 20"
    using dst [rule_format, of 0] dst [rule_format, of 1] by simp_all
  moreover have "cells st' 0 = Live 0" "cells st' 1 = Live 0"
    using srcs [rule_format, of 0] srcs [rule_format, of 1] by simp_all
  moreover have "cells st' 2 = Raw"
    using rest [rule_format, of 2] by simp
  ultimately show ?thesis
    using run ev by blast
qed

section \<open>The array factory\<close>

text \<open>
  C5 as stated fails: the elements are value-initialised, not default-initialised. An
  array of two \<open>int\<close> holds two zeros, where default-initialisation would leave both
  values indeterminate.
\<close>

theorem make_unique_array_zeroes_int_elements:
  "make_unique_array int_type (\<lambda>h n. Some 1) \<lparr>arrays = Map.empty\<rparr> 2
     = Some (\<lparr>deleter = Delete_array, ptr = 1\<rparr>,
             \<lparr>arrays = [1 \<mapsto> [Int_value 0, Int_value 0]]\<rparr>)
   \<and> [Int_value 0, Int_value 0] \<noteq> replicate 2 (default_init int_type)"
  by (simp add: make_unique_array_def new_array_value_initialized_def int_type_def numeral_2_eq_2)

text \<open>
  C5, amended. For every size \<open>n\<close> for which the allocation succeeds (a successful
  allocation never yields the null pointer), \<open>make_unique<T[]>(n)\<close> allocates exactly \<open>n\<close>
  value-initialised elements at the new address, changes no other array, and returns a
  non-empty owner of that address whose deleter is \<open>default_delete<T[]>\<close>. For \<open>U[]\<close>
  this overload takes part and the other two do not; it takes part neither for a type
  that is not an array nor for \<open>U[N]\<close> with \<open>N\<close> positive.
\<close>

theorem make_unique_array_value_initializes:
  assumes "operator_new h n = Some p" and "p \<noteq> nullptr"
  shows "(\<exists>u h'. make_unique_array T operator_new h n = Some (u, h')
            \<and> ptr u = p \<and> operator_bool u \<and> deleter u = Delete_array
            \<and> arrays h' p = Some (replicate n (value_init T))
            \<and> length (replicate n (value_init T)) = n
            \<and> (\<forall>q. q \<noteq> p \<longrightarrow> arrays h' q = arrays h q))
       \<and> make_unique_array_enabled Unbounded_array
       \<and> \<not> make_unique_object_enabled Unbounded_array
       \<and> \<not> make_unique_deleted Unbounded_array
       \<and> \<not> make_unique_array_enabled Non_array
       \<and> (\<forall>N. 0 < N \<longrightarrow> \<not> make_unique_array_enabled (Bounded_array N))"
  using assms
  by (simp add: make_unique_array_def new_array_value_initialized_def operator_bool_def
      make_unique_array_enabled_def make_unique_object_enabled_def make_unique_deleted_def)

theorem make_unique_array_value_initializes_witness:
  "\<exists>u h'. make_unique_array int_type (\<lambda>h n. Some 1) \<lparr>arrays = Map.empty\<rparr> 2 = Some (u, h')
       \<and> ptr u = 1 \<and> operator_bool u \<and> deleter u = Delete_array
       \<and> arrays h' 1 = Some [Int_value 0, Int_value 0]"
proof -
  have nn: "(1::nat) \<noteq> nullptr"
    by (simp add: nullptr_def)
  note t = make_unique_array_value_initializes
    [where operator_new = "\<lambda>h n. Some 1" and h = "\<lparr>arrays = Map.empty\<rparr>" and n = 2 and p = 1
       and T = int_type]
  from t [OF refl nn] obtain u h' where
    "make_unique_array int_type (\<lambda>h n. Some 1) \<lparr>arrays = Map.empty\<rparr> 2 = Some (u, h')"
    "ptr u = 1" "operator_bool u" "deleter u = Delete_array"
    "arrays h' 1 = Some [Int_value 0, Int_value 0]"
    by (elim conjE exE) (simp add: int_type_def numeral_2_eq_2)
  then show ?thesis
    by blast
qed

end
